theory Spec2Isabelle
  imports Main
begin

section \<open>Python text primitives used by \<open>tools/mesh_convert.py\<close>\<close>

text \<open>
  A Python \<open>str\<close> is modelled as a \<open>string\<close> whose characters are the code points
  0..255. The character classes below are Python's (\<open>str.isspace\<close>, the line boundaries
  of \<open>str.splitlines\<close>, the decimal digits accepted by \<open>int\<close>) restricted to that range.
\<close>

datatype error = IndexError | ValueError | OSError | Exception string

definition bind :: "error + 'a \<Rightarrow> ('a \<Rightarrow> error + 'b) \<Rightarrow> error + 'b" where
  "bind r f = (case r of Inl e \<Rightarrow> Inl e | Inr x \<Rightarrow> f x)"

definition index :: "'a list \<Rightarrow> nat \<Rightarrow> error + 'a" where
  \<comment> \<open>\<open>xs[i]\<close> for a non-negative \<open>i\<close>\<close>
  "index xs i = (if i < length xs then Inr (xs ! i) else Inl IndexError)"

definition isspace :: "char \<Rightarrow> bool" where
  "isspace c = (c \<in> set [CHR 0x09, CHR 0x0A, CHR 0x0B, CHR 0x0C, CHR 0x0D,
     CHR 0x1C, CHR 0x1D, CHR 0x1E, CHR 0x1F, CHR 0x20, CHR 0x85, CHR 0xA0])"

definition linebreak :: "char \<Rightarrow> bool" where
  "linebreak c = (c \<in> set [CHR 0x0A, CHR 0x0B, CHR 0x0C, CHR 0x0D,
     CHR 0x1C, CHR 0x1D, CHR 0x1E, CHR 0x85])"

definition after_break :: "string \<Rightarrow> string" where
  \<comment> \<open>skips one line boundary; \<open>\r\n\<close> counts as one\<close>
  "after_break rest = (case rest of
       [] \<Rightarrow> []
     | c # r \<Rightarrow> (if c = CHR 0x0D then (case r of [] \<Rightarrow> [] | d # r' \<Rightarrow> if d = CHR 0x0A then r' else r)
                else r))"

function splitlines :: "string \<Rightarrow> string list" where
  "splitlines [] = []"
| "splitlines (c # cs) =
     takeWhile (\<lambda>x. \<not> linebreak x) (c # cs)
       # splitlines (after_break (dropWhile (\<lambda>x. \<not> linebreak x) (c # cs)))"
  by pat_completeness auto
termination splitlines
proof (relation "measure length", goal_cases)
  case 1
  show ?case by simp
next
  case (2 c cs)
  show ?case
  proof (cases "linebreak c")
    case True
    then show ?thesis by (auto simp: after_break_def split: list.splits)
  next
    case False
    have "length (after_break (dropWhile (\<lambda>x. \<not> linebreak x) cs))
            \<le> length (dropWhile (\<lambda>x. \<not> linebreak x) cs)"
      by (auto simp: after_break_def split: list.splits)
    also have "\<dots> \<le> length cs" by (rule length_dropWhile_le)
    finally show ?thesis using False by simp
  qed
qed

definition strip :: "string \<Rightarrow> string" where
  "strip s = rev (dropWhile isspace (rev (dropWhile isspace s)))"

function split_ws :: "string \<Rightarrow> string list" where
  \<comment> \<open>\<open>str.split()\<close> without arguments\<close>
  "split_ws [] = []"
| "split_ws (c # cs) =
     (if isspace c then split_ws cs
      else takeWhile (\<lambda>x. \<not> isspace x) (c # cs) # split_ws (dropWhile (\<lambda>x. \<not> isspace x) cs))"
  by pat_completeness auto
termination split_ws
  by (relation "measure length") (auto simp: le_imp_less_Suc length_dropWhile_le)

fun split_char :: "char \<Rightarrow> string \<Rightarrow> string list" where
  \<comment> \<open>\<open>s.split(sep)\<close> for a one-character separator\<close>
  "split_char sep [] = [[]]"
| "split_char sep (x # xs) =
     (if x = sep then [] # split_char sep xs
      else (x # hd (split_char sep xs)) # tl (split_char sep xs))"

subsection \<open>\<open>int(s)\<close> and \<open>str(n)\<close>\<close>

definition int_max_str_digits :: nat where
  \<comment> \<open>CPython's default limit on decimal conversions\<close>
  "int_max_str_digits = 4300"

definition is_digit :: "char \<Rightarrow> bool" where
  "is_digit c = (c \<in> set ''0123456789'')"

definition digit_value :: "char \<Rightarrow> int" where
  "digit_value c = int (length (takeWhile (\<lambda>d. d \<noteq> c) ''0123456789''))"

fun digits_valid :: "bool \<Rightarrow> string \<Rightarrow> bool" where
  \<comment> \<open>digits with single underscores between them; the flag says the previous character
      was an underscore\<close>
  "digits_valid prev_us [] = (\<not> prev_us)"
| "digits_valid prev_us (c # cs) =
     (if c = CHR ''_'' then \<not> prev_us \<and> digits_valid True cs
      else is_digit c \<and> digits_valid False cs)"

definition digits_value :: "string \<Rightarrow> int" where
  "digits_value body = foldl (\<lambda>acc c. 10 * acc + digit_value c) 0 (filter is_digit body)"

definition int_isspace :: "char \<Rightarrow> bool" where
  \<comment> \<open>the padding that \<open>int\<close> skips around the digits: the ASCII blanks, and the code
      points 0x85 and 0xA0, which it first replaces by a blank; 0x1C to 0x1F are not skipped\<close>
  "int_isspace c = (c \<in> set [CHR 0x09, CHR 0x0A, CHR 0x0B, CHR 0x0C, CHR 0x0D,
     CHR 0x20, CHR 0x85, CHR 0xA0])"

definition int_strip :: "string \<Rightarrow> string" where
  "int_strip s = rev (dropWhile int_isspace (rev (dropWhile int_isspace s)))"

definition py_int :: "string \<Rightarrow> error + int" where
  "py_int s =
     (let t = int_strip s;
          neg = (t \<noteq> [] \<and> hd t = CHR ''-'');
          body = (if t \<noteq> [] \<and> (hd t = CHR ''+'' \<or> hd t = CHR ''-'') then tl t else t)
      in if body = [] \<or> hd body = CHR ''_'' \<or> \<not> digits_valid False body then Inl ValueError
         else if length (filter is_digit body) > int_max_str_digits then Inl ValueError
         else Inr (if neg then - digits_value body else digits_value body))"

function digits_of :: "nat \<Rightarrow> string" where
  "digits_of n = (if n < 10 then [''0123456789'' ! n]
                  else digits_of (n div 10) @ [''0123456789'' ! (n mod 10)])"
  by pat_completeness auto
termination digits_of
  by (relation "measure id") auto

declare digits_of.simps [simp del]

definition py_str :: "int \<Rightarrow> error + string" where
  "py_str n =
     (let ds = digits_of (nat \<bar>n\<bar>)
      in if length ds > int_max_str_digits then Inl ValueError
         else Inr (if n < 0 then CHR ''-'' # ds else ds))"

section \<open>The converter\<close>

record buffers =
  tex_coords :: string
  indices :: string
  vertices :: string

fun face_props :: "string \<Rightarrow> string list \<Rightarrow> error + string" where
  \<comment> \<open>the loop \<open>for p in props\<close> of the \<open>f\<close> case, on the \<open>indices\<close> buffer\<close>
  "face_props ind [] = Inr ind"
| "face_props ind (p # ps) =
     bind (index (split_char CHR ''/'' p) 0) (\<lambda>seg.
     bind (py_int seg) (\<lambda>n.
     bind (py_str (n - 1)) (\<lambda>s.
     face_props (ind @ s @ '' '') ps)))"

definition convert_line :: "buffers \<Rightarrow> string \<Rightarrow> error + buffers" where
  "convert_line b l =
     (let data = split_ws (strip l)
      in if length data = 0 then Inr b
         else
           let name = hd data; props = tl data
           in if name = ''v'' then
                bind (index props 0) (\<lambda>p0.
                bind (index props 1) (\<lambda>p1.
                bind (index props 2) (\<lambda>p2.
                Inr (b\<lparr>vertices := vertices b @ p0 @ '' '' @ p1 @ '' '' @ p2 @ ''\<newline>''\<rparr>))))
              else if name = ''vt'' then
                bind (index props 0) (\<lambda>p0.
                bind (index props 1) (\<lambda>p1.
                Inr (b\<lparr>tex_coords := tex_coords b @ p0 @ '' '' @ p1 @ ''\<newline>''\<rparr>)))
              else if name = ''f'' then
                bind (face_props (indices b) props) (\<lambda>ind. Inr (b\<lparr>indices := ind\<rparr>))
              else Inr b)"

fun convert_lines :: "buffers \<Rightarrow> string list \<Rightarrow> error + buffers" where
  "convert_lines b [] = Inr b"
| "convert_lines b (l # ls) = bind (convert_line b l) (\<lambda>b'. convert_lines b' ls)"

definition render :: "buffers \<Rightarrow> string" where
  "render b = '':Vertices\<newline>'' @ vertices b @ ''\<newline>:Indices\<newline>'' @ indices b
     @ ''\<newline>:TexCoord\<newline>'' @ tex_coords b @ ''\<newline>:Color\<newline>''"

definition scan :: "string \<Rightarrow> error + buffers" where
  "scan txt = convert_lines \<lparr>tex_coords = [], indices = [], vertices = []\<rparr> (splitlines txt)"

definition convert_obj_to_mesh :: "string \<Rightarrow> error + string" where
  "convert_obj_to_mesh txt = bind (scan txt) (\<lambda>b. Inr (render b))"

section \<open>Paths and files\<close>

text \<open>
  \<open>os.path.join\<close> and \<open>pathlib.Path(p).stem\<close> on a POSIX system, the stem as Python 3.12
  computes it: the last component of the path that is neither empty nor \<open>.\<close>, without its
  last suffix. A file system maps a path to the text that reading the file returns;
  \<open>can_write\<close> says which paths can be opened for writing. The log keeps every file that
  was read or written, in order; an \<open>open\<close> that fails leaves the state as it was.
\<close>

definition path_join :: "string \<Rightarrow> string \<Rightarrow> string" where
  "path_join a b =
     (if b \<noteq> [] \<and> hd b = CHR ''/'' then b
      else if a = [] \<or> last a = CHR ''/'' then a @ b
      else a @ ''/'' @ b)"

definition path_name :: "string \<Rightarrow> string" where
  "path_name p =
     (let parts = filter (\<lambda>x. x \<noteq> [] \<and> x \<noteq> ''.'') (split_char CHR ''/'' p)
      in if parts = [] then [] else last parts)"

definition rfind :: "char \<Rightarrow> string \<Rightarrow> int" where
  "rfind c s =
     (if c \<in> set s then int (length s) - 1 - int (length (takeWhile (\<lambda>x. x \<noteq> c) (rev s)))
      else - 1)"

definition path_stem :: "string \<Rightarrow> string" where
  "path_stem p =
     (let name = path_name p; i = rfind CHR ''.'' name
      in if 0 < i \<and> i < int (length name) - 1 then take (nat i) name else name)"

datatype io_event = ReadFile string | WriteFile string string

record os_state =
  files :: "string \<rightharpoonup> string"
  can_write :: "string \<Rightarrow> bool"
  io_log :: "io_event list"

definition read_file :: "string \<Rightarrow> os_state \<Rightarrow> (error + string) \<times> os_state" where
  "read_file path st =
     (case files st path of
        None \<Rightarrow> (Inl OSError, st)
      | Some cont \<Rightarrow> (Inr cont, st\<lparr>io_log := io_log st @ [ReadFile path]\<rparr>))"

definition write_file :: "string \<Rightarrow> string \<Rightarrow> os_state \<Rightarrow> (error + unit) \<times> os_state" where
  "write_file path data st =
     (if can_write st path
      then (Inr (), st\<lparr>files := (files st)(path \<mapsto> data),
                         io_log := io_log st @ [WriteFile path data]\<rparr>)
      else (Inl OSError, st))"

definition convert_obj_to_mesh_file :: "string \<Rightarrow> os_state \<Rightarrow> (error + string) \<times> os_state" where
  "convert_obj_to_mesh_file path st =
     (case read_file path st of
        (Inl e, st') \<Rightarrow> (Inl e, st')
      | (Inr cont, st') \<Rightarrow> (convert_obj_to_mesh cont, st'))"

section \<open>The command line\<close>

fun classify_args :: "bool \<Rightarrow> string list \<Rightarrow> string list \<Rightarrow> string list
    \<Rightarrow> error + (string list \<times> string list)" where
  \<comment> \<open>the \<open>while i < len(args)\<close> loop on the arguments from index \<open>i\<close> on; the state is
      \<open>output_flag_enabled\<close>, \<open>input_args\<close>, \<open>output_args\<close>\<close>
  "classify_args output_flag_enabled input_args output_args [] = Inr (input_args, output_args)"
| "classify_args output_flag_enabled input_args output_args (arg # rest) =
     (if output_flag_enabled \<or> arg = ''-o'' then
        (if arg = ''-o'' then
           (case rest of
              [] \<Rightarrow> Inl IndexError
            | nxt # rest' \<Rightarrow> classify_args True input_args (output_args @ [nxt]) rest')
         else classify_args True input_args (output_args @ [arg]) rest)
      else classify_args False (input_args @ [arg]) output_args rest)"

definition output_path :: "bool \<Rightarrow> bool \<Rightarrow> string list \<Rightarrow> nat \<Rightarrow> string \<Rightarrow> error + string" where
  \<comment> \<open>the path opened for writing in the body of the \<open>for\<close> loop\<close>
  "output_path is_single is_directory output_args i input_path =
     (if is_single then index output_args 0
      else if is_directory then
        bind (index output_args 0) (\<lambda>d. Inr (path_join d (path_stem input_path @ ''.mesh'')))
      else index output_args i)"

fun convert_all :: "bool \<Rightarrow> bool \<Rightarrow> string list \<Rightarrow> nat \<Rightarrow> string list \<Rightarrow> os_state
    \<Rightarrow> (error + unit) \<times> os_state" where
  \<comment> \<open>the loop \<open>for i, input_path in enumerate(input_args)\<close>\<close>
  "convert_all is_single is_directory output_args i [] st = (Inr (), st)"
| "convert_all is_single is_directory output_args i (input_path # rest) st =
     (case convert_obj_to_mesh_file input_path st of
        (Inl e, st1) \<Rightarrow> (Inl e, st1)
      | (Inr data, st1) \<Rightarrow>
          (case output_path is_single is_directory output_args i input_path of
             Inl e \<Rightarrow> (Inl e, st1)
           | Inr path \<Rightarrow>
               (case write_file path data st1 of
                  (Inl e, st2) \<Rightarrow> (Inl e, st2)
                | (Inr u, st2) \<Rightarrow>
                    convert_all is_single is_directory output_args (i + 1) rest st2)))"

definition main :: "string list \<Rightarrow> os_state \<Rightarrow> (error + unit) \<times> os_state" where
  "main args st =
     (case classify_args False [] [] args of
        Inl e \<Rightarrow> (Inl e, st)
      | Inr (input_args, output_args) \<Rightarrow>
          (let is_single = (length output_args = 1)
           in if \<not> is_single \<and> length output_args \<noteq> length input_args
              then (Inl (Exception ''invalid output: output should be equal to inputs or be one''), st)
              else
                let is_directory = (is_single \<and> length output_args = 1)
                in convert_all is_single is_directory output_args 0 input_args st))"

section \<open>Notions used in the statements\<close>

definition trailing_flags :: "string list \<Rightarrow> nat" where
  \<comment> \<open>the number of consecutive \<open>-o\<close> tokens at the end of the argument list\<close>
  "trailing_flags args = length (takeWhile (\<lambda>a. a = ''-o'') (rev args))"

definition fields :: "string \<Rightarrow> string list" where
  \<comment> \<open>the tokens of a line: \<open>data\<close> in the converter\<close>
  "fields l = split_ws (strip l)"

definition tagged :: "string \<Rightarrow> string \<Rightarrow> bool" where
  \<comment> \<open>the line is not blank and its first token is \<open>name\<close>\<close>
  "tagged name l = (fields l \<noteq> [] \<and> hd (fields l) = name)"

definition v_line :: "string \<Rightarrow> string" where
  "v_line l = tl (fields l) ! 0 @ '' '' @ tl (fields l) ! 1 @ '' '' @ tl (fields l) ! 2"

definition vt_line :: "string \<Rightarrow> string" where
  "vt_line l = tl (fields l) ! 0 @ '' '' @ tl (fields l) ! 1"

definition face_slots :: "string list \<Rightarrow> string list" where
  \<comment> \<open>the fields of all \<open>f\<close> lines, in order\<close>
  "face_slots ls = concat (map (\<lambda>l. tl (fields l)) (filter (tagged ''f'') ls))"

definition ignored_line :: "string \<Rightarrow> bool" where
  \<comment> \<open>a blank line, or a line whose first token is none of \<open>v\<close>, \<open>vt\<close>, \<open>f\<close>\<close>
  "ignored_line l = (\<not> tagged ''v'' l \<and> \<not> tagged ''vt'' l \<and> \<not> tagged ''f'' l)"

fun join_lines :: "string list \<Rightarrow> string" where
  "join_lines [] = []"
| "join_lines [l] = l"
| "join_lines (l # ls) = l @ ''\<newline>'' @ join_lines ls"

definition delete_ignored :: "string \<Rightarrow> string" where
  \<comment> \<open>the text with the ignored lines deleted\<close>
  "delete_ignored txt = join_lines (filter (\<lambda>l. \<not> ignored_line l) (splitlines txt))"

definition short_record :: "string \<Rightarrow> bool" where
  \<comment> \<open>a \<open>v\<close> line with fewer than 3 fields or a \<open>vt\<close> line with fewer than 2\<close>
  "short_record l =
     (let data = split_ws (strip l)
      in data \<noteq> [] \<and> ((hd data = ''v'' \<and> length (tl data) < 3)
                        \<or> (hd data = ''vt'' \<and> length (tl data) < 2)))"

subsection \<open>Example file systems\<close>

definition empty_disk :: os_state where
  "empty_disk = \<lparr>files = Map.empty, can_write = (\<lambda>p. True), io_log = []\<rparr>"

definition two_objs_disk :: os_state where
  "two_objs_disk = \<lparr>files = [''a.obj'' \<mapsto> ''v 1 2 3'', ''b.obj'' \<mapsto> ''v 4 5 6''],
     can_write = (\<lambda>p. True), io_log = []\<rparr>"

definition short_disk :: os_state where
  "short_disk = \<lparr>files = [''bad.obj'' \<mapsto> ''v 1 2''], can_write = (\<lambda>p. True), io_log = []\<rparr>"

subsection \<open>Example command lines\<close>

definition parallel_args :: "string list" where
  "parallel_args = [''a.obj'', ''b.obj'', ''-o'', ''a.mesh'', ''b.mesh'']"

definition single_args :: "string list" where
  "single_args = [''a.obj'', ''b.obj'', ''-o'', ''out'']"

subsection \<open>Example texts\<close>

definition quad_text :: string where
  "quad_text = ''f 1/1 2/2 3/3 4''"

definition quad_buffers :: buffers where
  "quad_buffers = \<lparr>tex_coords = [], indices = ''0 1 2 3 '', vertices = []\<rparr>"

definition mesh_text :: string where
  "mesh_text = ''v 1 2 3\<newline>vt 0 1\<newline>f 1 2 3\<newline>f 2 3 4''"

definition mesh_output :: string where
  "mesh_output = '':Vertices\<newline>1 2 3\<newline>\<newline>:Indices\<newline>0 1 2 1 2 3 \<newline>:TexCoord\<newline>0 1\<newline>\<newline>:Color\<newline>''"

definition noisy_text :: string where
  "noisy_text = ''# c\<newline>v 1 2 3\<newline>\<newline>o x\<newline>f 1''"

section \<open>Evaluation rules\<close>

lemmas text_eval = convert_obj_to_mesh_def scan_def render_def convert_line_def bind_def index_def
  strip_def isspace_def linebreak_def after_break_def py_int_def py_str_def is_digit_def
  int_isspace_def int_strip_def
  digit_value_def digits_value_def int_max_str_digits_def Let_def digits_of.simps

lemmas text_eval2 = text_eval short_record_def

lemmas spec_eval = fields_def tagged_def v_line_def vt_line_def face_slots_def ignored_line_def
  delete_ignored_def

lemmas run_eval = main_def convert_obj_to_mesh_file_def read_file_def write_file_def
  output_path_def path_join_def path_stem_def path_name_def rfind_def

section \<open>The argument loop\<close>

lemma trailing_flags_all: "\<forall>x\<in>set as. x = ''-o'' \<Longrightarrow> trailing_flags as = length as"
proof -
  assume "\<forall>x\<in>set as. x = ''-o''"
  then have "takeWhile (\<lambda>a. a = ''-o'') (rev as) = rev as" by simp
  then show ?thesis unfolding trailing_flags_def by (simp only: length_rev)
qed

lemma trailing_flags_Cons:
  "trailing_flags (a # as) =
     (if \<forall>x\<in>set as. x = ''-o'' then (if a = ''-o'' then Suc (length as) else length as)
      else trailing_flags as)"
proof (cases "\<forall>x\<in>set as. x = ''-o''")
  case True
  then have "takeWhile (\<lambda>a. a = ''-o'') (rev as) = rev as" by simp
  then have "takeWhile (\<lambda>a. a = ''-o'') (rev (a # as)) = rev as @ takeWhile (\<lambda>a. a = ''-o'') [a]"
    using True by (simp add: takeWhile_append)
  then show ?thesis using True unfolding trailing_flags_def by simp
next
  case False
  then show ?thesis unfolding trailing_flags_def by (auto simp: takeWhile_append)
qed

lemma classify_args_error:
  "(classify_args flag ins outs args = Inl IndexError) = odd (trailing_flags args)"
proof (induction flag ins outs args rule: classify_args.induct)
  case (1 flag ins outs)
  show ?case by (simp add: trailing_flags_def)
next
  case (2 flag ins outs arg rest)
  show ?case
  proof (cases "arg = ''-o''")
    case True
    note arg = this
    show ?thesis
    proof (cases rest)
      case Nil
      with arg show ?thesis by (simp add: trailing_flags_Cons)
    next
      case (Cons nxt rest')
      have ih: "(classify_args True ins (outs @ [nxt]) rest' = Inl IndexError)
                  = odd (trailing_flags rest')"
        using 2(1)[OF _ arg Cons] arg by simp
      have "odd (trailing_flags (arg # nxt # rest')) = odd (trailing_flags rest')"
        using arg by (auto simp: trailing_flags_Cons trailing_flags_all)
      with ih arg Cons show ?thesis by simp
    qed
  next
    case False
    have t: "trailing_flags (arg # rest) = trailing_flags rest"
      using False by (simp add: trailing_flags_Cons trailing_flags_all)
    show ?thesis
    proof (cases flag)
      case True
      with 2(2) False t show ?thesis by simp
    next
      case f: False
      with 2(3) False t show ?thesis by simp
    qed
  qed
qed

lemma classify_args_only_IndexError:
  "classify_args flag ins outs args = Inl e \<Longrightarrow> e = IndexError"
  by (induction flag ins outs args rule: classify_args.induct)
     (auto split: if_splits list.splits)

section \<open>The conversion loop over the input files\<close>

lemma convert_all_Cons_ok:
  assumes "convert_all s d outs i (p # rest) st = (Inr (), st')"
  shows "\<exists>t data path. files st p = Some t \<and> convert_obj_to_mesh t = Inr data
           \<and> output_path s d outs i p = Inr path \<and> can_write st path
           \<and> convert_all s d outs (i + 1) rest
                (st\<lparr>files := (files st)(path \<mapsto> data),
                    io_log := io_log st @ [ReadFile p, WriteFile path data]\<rparr>) = (Inr (), st')"
  using assms
  by (auto simp: convert_obj_to_mesh_file_def read_file_def write_file_def
           split: option.splits sum.splits if_splits prod.splits)

lemma convert_all_ok:
  assumes "convert_all s d outs i ins st = (Inr (), st')"
    and "length tgts = length ins"
    and "\<forall>k<length ins. output_path s d outs (i + k) (ins ! k) = Inr (tgts ! k)"
  shows "\<exists>datas. length datas = length ins
           \<and> files st' = (files st)(tgts [\<mapsto>] datas)
           \<and> can_write st' = can_write st
           \<and> io_log st' = io_log st
                @ concat (map (\<lambda>(p, tg, dt). [ReadFile p, WriteFile tg dt]) (zip ins (zip tgts datas)))
           \<and> (\<forall>k<length ins. \<exists>t. ((files st)(take k tgts [\<mapsto>] take k datas)) (ins ! k) = Some t
                  \<and> convert_obj_to_mesh t = Inr (datas ! k))"
  using assms
proof (induction ins arbitrary: i st tgts)
  case Nil
  then show ?case by simp
next
  case (Cons p rest)
  from Cons.prems(2) obtain tg tgts' where tgts: "tgts = tg # tgts'" and len: "length tgts' = length rest"
    by (cases tgts) auto
  from convert_all_Cons_ok[OF Cons.prems(1)] obtain t data path where
    rd: "files st p = Some t" and cv: "convert_obj_to_mesh t = Inr data"
    and op: "output_path s d outs i p = Inr path" and cw: "can_write st path"
    and rest: "convert_all s d outs (i + 1) rest
                (st\<lparr>files := (files st)(path \<mapsto> data),
                    io_log := io_log st @ [ReadFile p, WriteFile path data]\<rparr>) = (Inr (), st')"
    by blast
  from Cons.prems(3)[rule_format, of 0] op tgts have path: "path = tg" by simp
  have tg': "\<forall>k<length rest. output_path s d outs (i + 1 + k) (rest ! k) = Inr (tgts' ! k)"
  proof (intro allI impI)
    fix k assume "k < length rest"
    then show "output_path s d outs (i + 1 + k) (rest ! k) = Inr (tgts' ! k)"
      using Cons.prems(3)[rule_format, of "Suc k"] tgts by simp
  qed
  define st2 where "st2 = st\<lparr>files := (files st)(path \<mapsto> data),
                    io_log := io_log st @ [ReadFile p, WriteFile path data]\<rparr>"
  have st2: "files st2 = (files st)(path \<mapsto> data)" "can_write st2 = can_write st"
    "io_log st2 = io_log st @ [ReadFile p, WriteFile path data]"
    by (simp_all add: st2_def)
  from rest have rest2: "convert_all s d outs (i + 1) rest st2 = (Inr (), st')"
    by (simp only: st2_def)
  from Cons.IH[OF rest2 len tg'] obtain datas' where
    l: "length datas' = length rest"
    and f0: "files st' = (files st2)(tgts' [\<mapsto>] datas')"
    and c0: "can_write st' = can_write st2"
    and g0: "io_log st' = io_log st2
                @ concat (map (\<lambda>(p, tg, dt). [ReadFile p, WriteFile tg dt]) (zip rest (zip tgts' datas')))"
    and r0: "\<forall>k<length rest. \<exists>t. ((files st2)(take k tgts' [\<mapsto>] take k datas')) (rest ! k) = Some t
                  \<and> convert_obj_to_mesh t = Inr (datas' ! k)"
    by blast
  note f = f0[unfolded st2] and c = c0[unfolded st2] and g = g0[unfolded st2] and r = r0[unfolded st2]
  have texts: "\<forall>k<length (p # rest). \<exists>t. ((files st)(take k tgts [\<mapsto>] take k (data # datas'))) ((p # rest) ! k) = Some t
                  \<and> convert_obj_to_mesh t = Inr ((data # datas') ! k)"
  proof (intro allI impI)
    fix k assume k: "k < length (p # rest)"
    show "\<exists>t. ((files st)(take k tgts [\<mapsto>] take k (data # datas'))) ((p # rest) ! k) = Some t
                  \<and> convert_obj_to_mesh t = Inr ((data # datas') ! k)"
    proof (cases k)
      case 0
      with rd cv show ?thesis by simp
    next
      case (Suc k')
      with k r path tgts show ?thesis by simp
    qed
  qed
  show ?case
    apply (rule exI[of _ "data # datas'"])
    using l f c g texts path tgts by simp
qed


lemma map_upds_replicate:
  "length ds = n \<Longrightarrow> 0 < n \<Longrightarrow> m(replicate n x [\<mapsto>] ds) = m(x \<mapsto> last ds)"
proof (induction ds arbitrary: n m)
  case Nil
  then show ?case by simp
next
  case (Cons a ds)
  then obtain n' where n: "n = Suc n'" by (cases n) auto
  show ?case
  proof (cases ds)
    case Nil
    with Cons.prems n show ?thesis by simp
  next
    case c: (Cons b ds')
    have ln: "length ds = n'" "0 < n'" using Cons.prems n c by auto
    have "m(replicate n x [\<mapsto>] a # ds) = (m(x \<mapsto> a))(replicate n' x [\<mapsto>] ds)"
      by (simp only: n replicate_Suc map_upds_Cons)
    also have "\<dots> = (m(x \<mapsto> a))(x \<mapsto> last ds)"
      by (rule Cons.IH[OF ln])
    also have "\<dots> = m(x \<mapsto> last ds)" by (rule fun_upd_upd)
    also have "last ds = last (a # ds)" using c by simp
    finally show ?thesis .
  qed
qed

lemma log_replicate:
  "length ins = length datas \<Longrightarrow>
   concat (map (\<lambda>(p, tg, dt). [ReadFile p, WriteFile tg dt])
             (zip ins (zip (replicate (length ins) out) datas)))
     = concat (map (\<lambda>(p, dt). [ReadFile p, WriteFile out dt]) (zip ins datas))"
  by (induction ins datas rule: list_induct2) simp_all

lemma split_char_no_sep: "s \<in> set (split_char sep x) \<Longrightarrow> sep \<notin> set s"
proof (induction x arbitrary: s)
  case Nil
  then show ?case by simp
next
  case (Cons c x)
  show ?case
  proof (cases "c = sep")
    case True
    with Cons show ?thesis by auto
  next
    case False
    have ne: "split_char sep x \<noteq> []" by (cases x) simp_all
    then have hd_in: "hd (split_char sep x) \<in> set (split_char sep x)" by simp
    from Cons.prems False have "s = c # hd (split_char sep x) \<or> s \<in> set (tl (split_char sep x))"
      by simp
    then show ?thesis
    proof
      assume "s = c # hd (split_char sep x)"
      with Cons.IH[OF hd_in] False show ?thesis by auto
    next
      assume "s \<in> set (tl (split_char sep x))"
      then have "s \<in> set (split_char sep x)" using ne by (meson list.set_sel(2))
      then show ?thesis by (rule Cons.IH)
    qed
  qed
qed

lemma path_name_no_sep: "CHR ''/'' \<notin> set (path_name p)"
proof -
  let ?parts = "filter (\<lambda>x. x \<noteq> [] \<and> x \<noteq> ''.'') (split_char CHR ''/'' p)"
  show ?thesis
  proof (cases "?parts = []")
    case True
    then show ?thesis by (simp add: path_name_def)
  next
    case False
    then have "last ?parts \<in> set ?parts" by (rule last_in_set)
    then have "last ?parts \<in> set (split_char CHR ''/'' p)" by simp
    then have "CHR ''/'' \<notin> set (last ?parts)" by (rule split_char_no_sep)
    with False show ?thesis by (simp add: path_name_def)
  qed
qed

lemma path_stem_no_sep: "CHR ''/'' \<notin> set (path_stem p)"
  using path_name_no_sep[of p] by (auto simp: path_stem_def Let_def dest: in_set_takeD)

lemma path_join_derived_neq: "path_join out (path_stem p @ ''.mesh'') \<noteq> out"
proof -
  let ?b = "path_stem p @ ''.mesh''"
  have "hd ?b \<noteq> CHR ''/''"
    using path_stem_no_sep[of p] by (cases "path_stem p") auto
  then have "path_join out ?b = out @ ?b \<or> path_join out ?b = out @ ''/'' @ ?b"
    by (simp add: path_join_def)
  then show ?thesis by auto
qed

lemma main_single:
  assumes "classify_args False [] [] args = Inr (input_args, [out])"
  shows "main args st = convert_all True True [out] 0 input_args st"
  using assms by (simp add: main_def)

lemma map_upds_nth_distinct:
  "length xs = length ys \<Longrightarrow> distinct xs \<Longrightarrow> k < length xs \<Longrightarrow> (m(xs [\<mapsto>] ys)) (xs ! k) = Some (ys ! k)"
proof (induction xs ys arbitrary: m k rule: list_induct2)
  case Nil
  then show ?case by simp
next
  case (Cons x xs y ys)
  show ?case
  proof (cases k)
    case 0
    with Cons.prems show ?thesis by simp
  next
    case (Suc k')
    have "k' < length xs" "distinct xs" using Cons.prems Suc by simp_all
    then have "((m(x \<mapsto> y))(xs [\<mapsto>] ys)) (xs ! k') = Some (ys ! k')"
      using Cons.IH[of k' "m(x \<mapsto> y)"] by blast
    then show ?thesis unfolding Suc by (simp only: map_upds_Cons nth_Cons_Suc)
  qed
qed

lemma parallel_run:
  "classify_args False [] [] parallel_args = Inr ([''a.obj'', ''b.obj''], [''a.mesh'', ''b.mesh''])"
  "main parallel_args two_objs_disk = (Inr (), snd (main parallel_args two_objs_disk))"
  by (simp_all add: parallel_args_def two_objs_disk_def run_eval text_eval)

lemma single_run:
  "classify_args False [] [] single_args = Inr ([''a.obj'', ''b.obj''], [''out''])"
  "main single_args two_objs_disk = (Inr (), snd (main single_args two_objs_disk))"
  by (simp_all add: single_args_def two_objs_disk_def run_eval text_eval)

section \<open>Errors of the converter\<close>

lemma split_char_nonempty: "split_char sep x \<noteq> []"
  by (cases x) simp_all

lemma py_int_error: "py_int s = Inl e \<Longrightarrow> e = ValueError"
  by (auto simp: py_int_def Let_def split: if_splits)

lemma py_str_error: "py_str n = Inl e \<Longrightarrow> e = ValueError"
  by (auto simp: py_str_def Let_def split: if_splits)

lemma face_props_error: "face_props ind ps = Inl e \<Longrightarrow> e = ValueError"
proof (induction ps arbitrary: ind)
  case Nil
  then show ?case by simp
next
  case (Cons p ps)
  have "0 < length (split_char CHR ''/'' p)" using split_char_nonempty[of "CHR ''/''" p] by simp
  with Cons show ?case
    by (auto simp: bind_def index_def split: sum.splits dest: py_int_error py_str_error)
qed

lemma convert_line_error:
  "convert_line b l = Inl e \<Longrightarrow> (e = IndexError \<and> short_record l) \<or> (e = ValueError \<and> \<not> short_record l)"
  by (auto simp: convert_line_def short_record_def Let_def bind_def index_def
           split: if_splits sum.splits dest: face_props_error)

lemma convert_line_short: "short_record l \<Longrightarrow> convert_line b l = Inl IndexError"
  by (auto simp: convert_line_def short_record_def Let_def bind_def index_def)

lemma convert_lines_append:
  "convert_lines b (xs @ ys) = bind (convert_lines b xs) (\<lambda>b'. convert_lines b' ys)"
  by (induction xs arbitrary: b) (auto simp: bind_def split: sum.splits)

lemma convert_lines_error:
  "convert_lines b ls = Inl e \<Longrightarrow>
     (e = IndexError \<and> (\<exists>l\<in>set ls. short_record l)) \<or> e = ValueError"
proof (induction ls arbitrary: b)
  case Nil
  then show ?case by simp
next
  case (Cons l ls)
  show ?case
  proof (cases "convert_line b l")
    case (Inl e')
    with Cons.prems have "e' = e" by (simp add: bind_def)
    with Inl convert_line_error[of b l e] show ?thesis by auto
  next
    case (Inr b')
    with Cons.prems have "convert_lines b' ls = Inl e" by (simp add: bind_def)
    from Cons.IH[OF this] show ?thesis by auto
  qed
qed

lemma convert_lines_first_short:
  assumes "\<exists>l\<in>set ls. short_record l"
  shows "convert_lines b ls =
           (if isl (convert_lines b (takeWhile (\<lambda>l. \<not> short_record l) ls))
            then Inl ValueError else Inl IndexError)"
proof -
  let ?pre = "takeWhile (\<lambda>l. \<not> short_record l) ls"
  let ?post = "dropWhile (\<lambda>l. \<not> short_record l) ls"
  from assms have ne: "?post \<noteq> []" by auto
  then obtain l post where post: "?post = l # post" by (cases ?post) auto
  from hd_dropWhile[OF ne] post have sh: "short_record l" by simp
  have ls: "ls = ?pre @ l # post" using post by (metis takeWhile_dropWhile_id)
  have pre_ok: "\<forall>x\<in>set ?pre. \<not> short_record x" by (auto dest: set_takeWhileD)
  show ?thesis
  proof (cases "convert_lines b ?pre")
    case (Inl e)
    from convert_lines_error[OF Inl] pre_ok have e: "e = ValueError" by auto
    have "convert_lines b ls = Inl ValueError"
      by (subst ls, simp only: convert_lines_append Inl e) (simp add: bind_def)
    with Inl show ?thesis by simp
  next
    case (Inr b')
    have "convert_lines b ls = Inl IndexError"
      by (subst ls, simp only: convert_lines_append Inr) (simp add: bind_def convert_line_short[OF sh])
    with Inr show ?thesis by simp
  qed
qed

lemma convert_all_convert_error:
  assumes "files st p = Some txt" and "convert_obj_to_mesh txt = Inl e"
  shows "convert_all s d outs i (p # rest) st = (Inl e, st\<lparr>io_log := io_log st @ [ReadFile p]\<rparr>)"
  using assms by (simp add: convert_obj_to_mesh_file_def read_file_def)

section \<open>Lines and tokens\<close>

lemma linebreak_isspace: "linebreak c \<Longrightarrow> isspace c"
  by (auto simp: linebreak_def isspace_def)

lemma split_ws_token: "t \<in> set (split_ws s) \<Longrightarrow> t \<noteq> [] \<and> (\<forall>c\<in>set t. \<not> isspace c)"
proof (induction s arbitrary: t rule: split_ws.induct)
  case 1
  then show ?case by simp
next
  case (2 c cs)
  show ?case
  proof (cases "isspace c")
    case True
    with 2 show ?thesis by simp
  next
    case False
    with "2.prems" have "t = c # takeWhile (\<lambda>x. \<not> isspace x) cs
        \<or> t \<in> set (split_ws (dropWhile (\<lambda>x. \<not> isspace x) cs))"
      by simp
    then show ?thesis
    proof
      assume "t = c # takeWhile (\<lambda>x. \<not> isspace x) cs"
      with False show ?thesis by (auto dest: set_takeWhileD)
    next
      assume "t \<in> set (split_ws (dropWhile (\<lambda>x. \<not> isspace x) cs))"
      with "2.IH"(2)[OF False] show ?thesis by blast
    qed
  qed
qed

lemma splitlines_unfold:
  "s \<noteq> [] \<Longrightarrow> splitlines s = takeWhile (\<lambda>x. \<not> linebreak x) s
       # splitlines (after_break (dropWhile (\<lambda>x. \<not> linebreak x) s))"
  by (cases s) simp_all

lemma splitlines_line: "l \<in> set (splitlines s) \<Longrightarrow> \<forall>c\<in>set l. \<not> linebreak c"
proof (induction s arbitrary: l rule: splitlines.induct)
  case 1
  then show ?case by simp
next
  case (2 c cs)
  from "2.prems" have "l = takeWhile (\<lambda>x. \<not> linebreak x) (c # cs)
      \<or> l \<in> set (splitlines (after_break (dropWhile (\<lambda>x. \<not> linebreak x) (c # cs))))"
    by (simp del: takeWhile.simps dropWhile.simps)
  then show ?case
  proof
    assume "l = takeWhile (\<lambda>x. \<not> linebreak x) (c # cs)"
    then show ?thesis by (auto dest: set_takeWhileD)
  next
    assume "l \<in> set (splitlines (after_break (dropWhile (\<lambda>x. \<not> linebreak x) (c # cs))))"
    then show ?thesis by (rule "2.IH")
  qed
qed

lemma newline_linebreak: "linebreak CHR 0x0A"
  by (simp add: linebreak_def)

lemma splitlines_terminated:
  assumes "\<forall>c\<in>set l. \<not> linebreak c"
  shows "splitlines (l @ CHR 0x0A # rest) = l # splitlines rest"
proof -
  have t: "takeWhile (\<lambda>x. \<not> linebreak x) (l @ CHR 0x0A # rest) = l"
    using assms newline_linebreak by (simp add: takeWhile_tail)
  have d: "dropWhile (\<lambda>x. \<not> linebreak x) (l @ CHR 0x0A # rest) = CHR 0x0A # rest"
    using assms newline_linebreak by (simp add: dropWhile_append3)
  have a: "after_break (CHR 0x0A # rest) = rest" by (simp add: after_break_def)
  have "l @ CHR 0x0A # rest \<noteq> []" by simp
  from splitlines_unfold[OF this] show ?thesis by (simp only: t d a)
qed

lemma splitlines_single:
  assumes "l \<noteq> []" and "\<forall>c\<in>set l. \<not> linebreak c"
  shows "splitlines l = [l]"
proof -
  have t: "takeWhile (\<lambda>x. \<not> linebreak x) l = l" using assms(2) by simp
  have d: "dropWhile (\<lambda>x. \<not> linebreak x) l = []" using assms(2) by simp
  from splitlines_unfold[OF assms(1)] show ?thesis by (simp add: t d after_break_def)
qed

lemma splitlines_concat_terminated:
  "\<forall>l\<in>set ls. \<forall>c\<in>set l. \<not> linebreak c \<Longrightarrow>
   splitlines (concat (map (\<lambda>l. l @ [CHR 0x0A]) ls)) = ls"
  by (induction ls) (simp_all add: splitlines_terminated)

lemma space_isspace: "isspace CHR '' ''"
  by (simp add: isspace_def)

lemma split_ws_terminated:
  assumes "t \<noteq> []" and "\<forall>c\<in>set t. \<not> isspace c"
  shows "split_ws (t @ CHR '' '' # rest) = t # split_ws rest"
proof -
  from assms(1) obtain c cs where t: "t = c # cs" by (cases t) auto
  have c: "\<not> isspace c" and cs: "\<forall>x\<in>set cs. \<not> isspace x" using assms(2) t by simp_all
  have tk: "takeWhile (\<lambda>x. \<not> isspace x) (c # cs @ CHR '' '' # rest) = c # cs"
    using c cs space_isspace by (simp add: takeWhile_tail)
  have dr: "dropWhile (\<lambda>x. \<not> isspace x) (cs @ CHR '' '' # rest) = CHR '' '' # rest"
    using cs space_isspace by (simp add: dropWhile_append3)
  have "split_ws (c # cs @ CHR '' '' # rest)
          = takeWhile (\<lambda>x. \<not> isspace x) (c # cs @ CHR '' '' # rest)
              # split_ws (dropWhile (\<lambda>x. \<not> isspace x) (cs @ CHR '' '' # rest))"
    using c by (simp del: takeWhile.simps)
  also have "\<dots> = (c # cs) # split_ws (CHR '' '' # rest)" by (simp only: tk dr)
  also have "\<dots> = (c # cs) # split_ws rest" using space_isspace by simp
  finally show ?thesis using t by simp
qed

lemma split_ws_concat_terminated:
  "\<forall>t\<in>set ts. t \<noteq> [] \<and> (\<forall>c\<in>set t. \<not> isspace c) \<Longrightarrow>
   split_ws (concat (map (\<lambda>t. t @ '' '') ts)) = ts"
  by (induction ts) (simp_all add: split_ws_terminated)

section \<open>Decimal numerals\<close>

lemma digit_char:
  assumes "k < 10"
  shows "is_digit (''0123456789'' ! k)" and "digit_value (''0123456789'' ! k) = int k"
    and "\<not> isspace (''0123456789'' ! k)" and "''0123456789'' ! k \<noteq> CHR ''_''"
    and "''0123456789'' ! k \<noteq> CHR ''+''" and "''0123456789'' ! k \<noteq> CHR ''-''"
proof -
  from assms have "k = 0 \<or> k = 1 \<or> k = 2 \<or> k = 3 \<or> k = 4 \<or> k = 5 \<or> k = 6 \<or> k = 7 \<or> k = 8 \<or> k = 9"
    by arith
  then show "is_digit (''0123456789'' ! k)" and "digit_value (''0123456789'' ! k) = int k"
    and "\<not> isspace (''0123456789'' ! k)" and "''0123456789'' ! k \<noteq> CHR ''_''"
    and "''0123456789'' ! k \<noteq> CHR ''+''" and "''0123456789'' ! k \<noteq> CHR ''-''"
    by (auto simp: is_digit_def digit_value_def isspace_def)
qed

lemma digits_of_nonempty: "digits_of n \<noteq> []"
  by (subst digits_of.simps) (simp del: digits_of.simps)

lemma digits_of_digits: "c \<in> set (digits_of n) \<Longrightarrow>
    is_digit c \<and> \<not> isspace c \<and> c \<noteq> CHR ''_'' \<and> c \<noteq> CHR ''+'' \<and> c \<noteq> CHR ''-''"
proof (induction n arbitrary: c rule: digits_of.induct)
  case (1 n)
  show ?case
  proof (cases "n < 10")
    case True
    with "1.prems" have "c = ''0123456789'' ! n" by (subst (asm) digits_of.simps) simp
    with digit_char[OF True] show ?thesis by simp
  next
    case False
    with "1.prems" have "c \<in> set (digits_of (n div 10)) \<or> c = ''0123456789'' ! (n mod 10)"
      by (subst (asm) digits_of.simps) auto
    then show ?thesis
    proof
      assume "c \<in> set (digits_of (n div 10))"
      with "1.IH"[OF False] show ?thesis by blast
    next
      assume c: "c = ''0123456789'' ! (n mod 10)"
      have "n mod 10 < 10" by simp
      from digit_char[OF this] c show ?thesis by simp
    qed
  qed
qed

lemma digits_value_append:
  "is_digit c \<Longrightarrow> digits_value (s @ [c]) = 10 * digits_value s + digit_value c"
  by (simp add: digits_value_def)

lemma digits_value_digits_of: "digits_value (digits_of n) = int n"
proof (induction n rule: digits_of.induct)
  case (1 n)
  show ?case
  proof (cases "n < 10")
    case True
    then have "digits_of n = [''0123456789'' ! n]" by (subst digits_of.simps) simp
    with digit_char[OF True] show ?thesis by (simp add: digits_value_def)
  next
    case False
    have m: "n mod 10 < 10" by simp
    from False have "digits_of n = digits_of (n div 10) @ [''0123456789'' ! (n mod 10)]"
      by (subst digits_of.simps) simp
    then have "digits_value (digits_of n)
        = 10 * digits_value (digits_of (n div 10)) + digit_value (''0123456789'' ! (n mod 10))"
      using digit_char(1)[OF m] by (simp only: digits_value_append)
    also have "\<dots> = 10 * int (n div 10) + int (n mod 10)"
      using "1.IH"[OF False] digit_char(2)[OF m] by simp
    also have "\<dots> = int n" by presburger
    finally show ?thesis .
  qed
qed

lemma digits_valid_all_digits:
  "\<forall>c\<in>set s. is_digit c \<and> c \<noteq> CHR ''_'' \<Longrightarrow> digits_valid b s = (s \<noteq> [] \<or> \<not> b)"
  by (induction s arbitrary: b) auto

lemma int_isspace_isspace: "int_isspace c \<Longrightarrow> isspace c"
  by (auto simp: int_isspace_def isspace_def)

lemma int_strip_no_space:
  assumes "\<forall>c\<in>set s. \<not> isspace c"
  shows "int_strip s = s"
proof -
  have ns: "\<forall>c\<in>set s. \<not> int_isspace c" using assms int_isspace_isspace by blast
  have "dropWhile int_isspace s = s" using ns by (cases s) auto
  moreover have "dropWhile int_isspace (rev s) = rev s"
  proof (cases "rev s")
    case Nil
    then show ?thesis by simp
  next
    case (Cons a l)
    then have "a \<in> set (rev s)" by simp
    then have "\<not> int_isspace a" using ns by simp
    with Cons show ?thesis by simp
  qed
  ultimately show ?thesis by (simp add: int_strip_def)
qed

lemma py_str_chars:
  assumes "py_str m = Inr s"
  shows "s \<noteq> []" and "\<forall>c\<in>set s. \<not> isspace c"
proof -
  from assms have s: "s = (if m < 0 then CHR ''-'' # digits_of (nat \<bar>m\<bar>) else digits_of (nat \<bar>m\<bar>))"
    by (auto simp: py_str_def Let_def split: if_splits)
  show "s \<noteq> []" using s digits_of_nonempty by auto
  have "\<not> isspace CHR ''-''" by (simp add: isspace_def)
  then show "\<forall>c\<in>set s. \<not> isspace c" using s digits_of_digits by (auto split: if_splits)
qed

lemma py_int_py_str:
  assumes "py_str m = Inr s"
  shows "py_int s = Inr m"
proof -
  let ?ds = "digits_of (nat \<bar>m\<bar>)"
  from assms have s: "s = (if m < 0 then CHR ''-'' # ?ds else ?ds)"
    and len: "length ?ds \<le> int_max_str_digits"
    by (auto simp: py_str_def Let_def split: if_splits)
  have st: "int_strip s = s" using py_str_chars(2)[OF assms] by (rule int_strip_no_space)
  have ne: "?ds \<noteq> []" by (rule digits_of_nonempty)
  then have hd_in: "hd ?ds \<in> set ?ds" by simp
  from digits_of_digits[OF hd_in]
  have hd: "hd ?ds \<noteq> CHR ''_''" "hd ?ds \<noteq> CHR ''+''" "hd ?ds \<noteq> CHR ''-''" by simp_all
  have dg: "\<forall>c\<in>set ?ds. is_digit c \<and> c \<noteq> CHR ''_''" using digits_of_digits by blast
  have valid: "digits_valid False ?ds" using digits_valid_all_digits[OF dg] by simp
  have flt: "filter is_digit ?ds = ?ds" using dg by simp
  have val: "digits_value ?ds = int (nat \<bar>m\<bar>)" by (rule digits_value_digits_of)
  show ?thesis
  proof (cases "m < 0")
    case True
    with s have "s = CHR ''-'' # ?ds" by simp
    then have "py_int s = Inr (- digits_value ?ds)"
      unfolding py_int_def st using ne hd valid flt len by (simp add: Let_def)
    with val True show ?thesis by simp
  next
    case False
    with s have "s = ?ds" by simp
    then have "py_int s = Inr (digits_value ?ds)"
      unfolding py_int_def st using ne hd valid flt len by (simp add: Let_def)
    with val False show ?thesis by simp
  qed
qed

section \<open>The buffers of the converter\<close>

lemma convert_line_v:
  assumes "tagged ''v'' l" and "convert_line b l = Inr b'"
  shows "3 \<le> length (tl (fields l))"
    and "b' = b\<lparr>vertices := vertices b @ v_line l @ ''\<newline>''\<rparr>"
  using assms
  by (auto simp: tagged_def fields_def v_line_def convert_line_def Let_def bind_def index_def
           split: if_splits)

lemma convert_line_vt:
  assumes "tagged ''vt'' l" and "convert_line b l = Inr b'"
  shows "2 \<le> length (tl (fields l))"
    and "b' = b\<lparr>tex_coords := tex_coords b @ vt_line l @ ''\<newline>''\<rparr>"
  using assms
  by (auto simp: tagged_def fields_def vt_line_def convert_line_def Let_def bind_def index_def
           split: if_splits)

lemma convert_line_f:
  assumes "tagged ''f'' l" and "convert_line b l = Inr b'"
  shows "\<exists>ind. face_props (indices b) (tl (fields l)) = Inr ind \<and> b' = b\<lparr>indices := ind\<rparr>"
  using assms
  by (auto simp: tagged_def fields_def convert_line_def Let_def bind_def
           split: if_splits sum.splits)

lemma convert_line_ignored: "ignored_line l \<Longrightarrow> convert_line b l = Inr b"
  by (auto simp: ignored_line_def tagged_def fields_def convert_line_def Let_def)

lemma tagged_cases:
  "tagged ''v'' l \<and> \<not> tagged ''vt'' l \<and> \<not> tagged ''f'' l
   \<or> tagged ''vt'' l \<and> \<not> tagged ''v'' l \<and> \<not> tagged ''f'' l
   \<or> tagged ''f'' l \<and> \<not> tagged ''v'' l \<and> \<not> tagged ''vt'' l
   \<or> ignored_line l"
  by (auto simp: ignored_line_def tagged_def)

lemma face_props_ok:
  "face_props ind ps = Inr ind' \<Longrightarrow>
   \<exists>ns strs. map (\<lambda>p. py_int (hd (split_char CHR ''/'' p))) ps = map Inr ns
     \<and> map (\<lambda>n. py_str (n - 1)) ns = map Inr strs
     \<and> ind' = ind @ concat (map (\<lambda>s. s @ '' '') strs)"
proof (induction ps arbitrary: ind)
  case Nil
  then show ?case by simp
next
  case (Cons p ps)
  have ne: "0 < length (split_char CHR ''/'' p)" using split_char_nonempty[of "CHR ''/''" p] by simp
  then have hd0: "split_char CHR ''/'' p ! 0 = hd (split_char CHR ''/'' p)"
    by (simp add: hd_conv_nth)
  from Cons.prems ne hd0 obtain n s where
    n: "py_int (hd (split_char CHR ''/'' p)) = Inr n"
    and s: "py_str (n - 1) = Inr s"
    and r: "face_props (ind @ s @ '' '') ps = Inr ind'"
    by (auto simp: bind_def index_def split: sum.splits)
  from Cons.IH[OF r] obtain ns strs where
    a: "map (\<lambda>p. py_int (hd (split_char CHR ''/'' p))) ps = map Inr ns"
    and b: "map (\<lambda>n. py_str (n - 1)) ns = map Inr strs"
    and c: "ind' = (ind @ s @ '' '') @ concat (map (\<lambda>s. s @ '' '') strs)"
    by blast
  show ?case
    apply (rule exI[of _ "n # ns"])
    apply (rule exI[of _ "s # strs"])
    using n s a b c by simp
qed

lemma convert_lines_vertices:
  "convert_lines b ls = Inr b' \<Longrightarrow>
   vertices b' = vertices b @ concat (map (\<lambda>l. v_line l @ ''\<newline>'') (filter (tagged ''v'') ls))
   \<and> (\<forall>l\<in>set (filter (tagged ''v'') ls). 3 \<le> length (tl (fields l)))"
proof (induction ls arbitrary: b)
  case Nil
  then show ?case by simp
next
  case (Cons l ls)
  from Cons.prems obtain b1 where l: "convert_line b l = Inr b1" and r: "convert_lines b1 ls = Inr b'"
    by (auto simp: bind_def split: sum.splits)
  note ih = Cons.IH[OF r]
  from tagged_cases[of l] show ?case
  proof (elim disjE conjE)
    assume t: "tagged ''v'' l"
    from convert_line_v[OF t l] ih t show ?thesis by simp
  next
    assume t: "tagged ''vt'' l" "\<not> tagged ''v'' l"
    from convert_line_vt(2)[OF t(1) l] ih t show ?thesis by simp
  next
    assume t: "tagged ''f'' l" "\<not> tagged ''v'' l"
    from convert_line_f[OF t(1) l] ih t show ?thesis by auto
  next
    assume t: "ignored_line l"
    then have "\<not> tagged ''v'' l" by (simp add: ignored_line_def)
    with convert_line_ignored[OF t, of b] l ih show ?thesis by simp
  qed
qed

lemma convert_lines_tex_coords:
  "convert_lines b ls = Inr b' \<Longrightarrow>
   tex_coords b' = tex_coords b @ concat (map (\<lambda>l. vt_line l @ ''\<newline>'') (filter (tagged ''vt'') ls))
   \<and> (\<forall>l\<in>set (filter (tagged ''vt'') ls). 2 \<le> length (tl (fields l)))"
proof (induction ls arbitrary: b)
  case Nil
  then show ?case by simp
next
  case (Cons l ls)
  from Cons.prems obtain b1 where l: "convert_line b l = Inr b1" and r: "convert_lines b1 ls = Inr b'"
    by (auto simp: bind_def split: sum.splits)
  note ih = Cons.IH[OF r]
  from tagged_cases[of l] show ?case
  proof (elim disjE conjE)
    assume t: "tagged ''v'' l" "\<not> tagged ''vt'' l"
    from convert_line_v(2)[OF t(1) l] ih t show ?thesis by simp
  next
    assume t: "tagged ''vt'' l"
    from convert_line_vt[OF t l] ih t show ?thesis by simp
  next
    assume t: "tagged ''f'' l" "\<not> tagged ''vt'' l"
    from convert_line_f[OF t(1) l] ih t show ?thesis by auto
  next
    assume t: "ignored_line l"
    then have "\<not> tagged ''vt'' l" by (simp add: ignored_line_def)
    with convert_line_ignored[OF t, of b] l ih show ?thesis by simp
  qed
qed

lemma convert_lines_indices:
  "convert_lines b ls = Inr b' \<Longrightarrow>
   \<exists>ns strs. map (\<lambda>p. py_int (hd (split_char CHR ''/'' p))) (face_slots ls) = map Inr ns
     \<and> map (\<lambda>n. py_str (n - 1)) ns = map Inr strs
     \<and> indices b' = indices b @ concat (map (\<lambda>s. s @ '' '') strs)"
proof (induction ls arbitrary: b)
  case Nil
  then show ?case by (simp add: face_slots_def)
next
  case (Cons l ls)
  from Cons.prems obtain b1 where l: "convert_line b l = Inr b1" and r: "convert_lines b1 ls = Inr b'"
    by (auto simp: bind_def split: sum.splits)
  from Cons.IH[OF r] obtain ns strs where
    a: "map (\<lambda>p. py_int (hd (split_char CHR ''/'' p))) (face_slots ls) = map Inr ns"
    and b: "map (\<lambda>n. py_str (n - 1)) ns = map Inr strs"
    and c: "indices b' = indices b1 @ concat (map (\<lambda>s. s @ '' '') strs)"
    by blast
  show ?case
  proof (cases "tagged ''f'' l")
    case True
    from convert_line_f[OF True l] obtain ind where
      f: "face_props (indices b) (tl (fields l)) = Inr ind" and b1: "b1 = b\<lparr>indices := ind\<rparr>"
      by blast
    from face_props_ok[OF f] obtain ns0 strs0 where
      a0: "map (\<lambda>p. py_int (hd (split_char CHR ''/'' p))) (tl (fields l)) = map Inr ns0"
      and b0: "map (\<lambda>n. py_str (n - 1)) ns0 = map Inr strs0"
      and c0: "ind = indices b @ concat (map (\<lambda>s. s @ '' '') strs0)"
      by blast
    have sl: "face_slots (l # ls) = tl (fields l) @ face_slots ls"
      using True by (simp add: face_slots_def)
    show ?thesis
      apply (rule exI[of _ "ns0 @ ns"])
      apply (rule exI[of _ "strs0 @ strs"])
      using a b c a0 b0 c0 b1 sl by simp
  next
    case False
    have sl: "face_slots (l # ls) = face_slots ls" using False by (simp add: face_slots_def)
    have "indices b1 = indices b"
    proof -
      from tagged_cases[of l] False show ?thesis
      proof (elim disjE conjE)
        assume t: "tagged ''v'' l"
        from convert_line_v(2)[OF t l] show ?thesis by simp
      next
        assume t: "tagged ''vt'' l"
        from convert_line_vt(2)[OF t l] show ?thesis by simp
      next
        assume "tagged ''f'' l" with False show ?thesis by simp
      next
        assume t: "ignored_line l"
        from convert_line_ignored[OF t, of b] l show ?thesis by simp
      qed
    qed
    with a b c sl show ?thesis by auto
  qed
qed

lemma scan_render: "scan txt = Inr b \<Longrightarrow> convert_obj_to_mesh txt = Inr (render b)"
  by (simp add: convert_obj_to_mesh_def bind_def)

lemma scan_indices:
  assumes "scan txt = Inr b"
  shows "\<exists>ns strs.
           map (\<lambda>p. py_int (hd (split_char CHR ''/'' p))) (face_slots (splitlines txt)) = map Inr ns
         \<and> map (\<lambda>n. py_str (n - 1)) ns = map Inr strs
         \<and> indices b = concat (map (\<lambda>s. s @ '' '') strs)
         \<and> split_ws (indices b) = strs
         \<and> map py_int (split_ws (indices b)) = map (\<lambda>n. Inr (n - 1)) ns"
proof -
  from convert_lines_indices[OF assms[unfolded scan_def]] obtain ns strs where
    a: "map (\<lambda>p. py_int (hd (split_char CHR ''/'' p))) (face_slots (splitlines txt)) = map Inr ns"
    and b: "map (\<lambda>n. py_str (n - 1)) ns = map Inr strs"
    and c: "indices b = concat (map (\<lambda>s. s @ '' '') strs)"
    by auto
  from b have len: "length strs = length ns" by (metis length_map)
  have each: "\<forall>k<length ns. py_str (ns ! k - 1) = Inr (strs ! k)"
  proof (intro allI impI)
    fix k assume k: "k < length ns"
    then have "py_str (ns ! k - 1) = map (\<lambda>n. py_str (n - 1)) ns ! k" by simp
    also have "\<dots> = map Inr strs ! k" by (simp only: b)
    also have "\<dots> = Inr (strs ! k)" using k len by simp
    finally show "py_str (ns ! k - 1) = Inr (strs ! k)" .
  qed
  have tok: "\<forall>t\<in>set strs. t \<noteq> [] \<and> (\<forall>c\<in>set t. \<not> isspace c)"
  proof
    fix t assume "t \<in> set strs"
    then obtain k where k: "k < length strs" and t: "t = strs ! k" by (metis in_set_conv_nth)
    from each k len have "py_str (ns ! k - 1) = Inr t" using t by simp
    from py_str_chars[OF this] show "t \<noteq> [] \<and> (\<forall>c\<in>set t. \<not> isspace c)" by simp
  qed
  have d: "split_ws (indices b) = strs"
    unfolding c by (rule split_ws_concat_terminated[OF tok])
  have e: "map py_int strs = map (\<lambda>n. Inr (n - 1)) ns"
  proof (rule nth_equalityI)
    show "length (map py_int strs) = length (map (\<lambda>n. Inr (n - 1)) ns)" using len by simp
  next
    fix k assume "k < length (map py_int strs)"
    then have k: "k < length ns" using len by simp
    from py_int_py_str[OF each[rule_format, OF k]] k len
    show "map py_int strs ! k = map (\<lambda>n. Inr (n - 1)) ns ! k" by simp
  qed
  from a b c d e show ?thesis by (simp only: d) blast
qed

lemma fields_token: "t \<in> set (tl (fields l)) \<Longrightarrow> \<forall>c\<in>set t. \<not> linebreak c"
proof -
  assume "t \<in> set (tl (fields l))"
  then have "t \<in> set (split_ws (strip l))" unfolding fields_def by (cases "split_ws (strip l)") auto
  from split_ws_token[OF this] linebreak_isspace show ?thesis by blast
qed

lemma space_not_linebreak: "\<not> linebreak CHR '' ''"
  by (simp add: linebreak_def)

lemma v_line_chars:
  assumes "3 \<le> length (tl (fields l))"
  shows "\<forall>c\<in>set (v_line l). \<not> linebreak c"
proof -
  have "tl (fields l) ! 0 \<in> set (tl (fields l))" "tl (fields l) ! 1 \<in> set (tl (fields l))"
    "tl (fields l) ! 2 \<in> set (tl (fields l))"
    using assms by simp_all
  from this[THEN fields_token] space_not_linebreak show ?thesis
    by (simp add: v_line_def ball_Un)
qed

lemma vt_line_chars:
  assumes "2 \<le> length (tl (fields l))"
  shows "\<forall>c\<in>set (vt_line l). \<not> linebreak c"
proof -
  have "tl (fields l) ! 0 \<in> set (tl (fields l))" "tl (fields l) ! 1 \<in> set (tl (fields l))"
    using assms by simp_all
  from this[THEN fields_token] space_not_linebreak show ?thesis
    by (simp add: vt_line_def ball_Un)
qed

lemma concat_map_terminated:
  "concat (map (\<lambda>l. f l @ ''\<newline>'') ls) = concat (map (\<lambda>l. l @ [CHR 0x0A]) (map f ls))"
  by (induction ls) simp_all

lemma length_face_slots:
  "\<forall>l\<in>set (filter (tagged ''f'') ls). length (tl (fields l)) = 3 \<Longrightarrow>
   length (face_slots ls) = 3 * length (filter (tagged ''f'') ls)"
  by (induction ls) (auto simp: face_slots_def)

lemma fields_Nil: "fields [] = []"
  by (simp add: fields_def strip_def)

lemma kept_nonempty: "\<not> ignored_line l \<Longrightarrow> l \<noteq> []"
  using fields_Nil by (auto simp: ignored_line_def tagged_def)

lemma splitlines_join_lines:
  "\<forall>l\<in>set ls. l \<noteq> [] \<and> (\<forall>c\<in>set l. \<not> linebreak c) \<Longrightarrow> splitlines (join_lines ls) = ls"
proof (induction ls rule: join_lines.induct)
  case 1
  then show ?case by simp
next
  case (2 l)
  then show ?case by (simp add: splitlines_single)
next
  case (3 l l' ls)
  have nl: "\<forall>c\<in>set l. \<not> linebreak c" using "3.prems" by simp
  have rest: "\<forall>x\<in>set (l' # ls). x \<noteq> [] \<and> (\<forall>c\<in>set x. \<not> linebreak c)"
    using "3.prems" by simp
  have "join_lines (l # l' # ls) = l @ CHR 0x0A # join_lines (l' # ls)" by simp
  then have "splitlines (join_lines (l # l' # ls)) = l # splitlines (join_lines (l' # ls))"
    by (simp only: splitlines_terminated[OF nl])
  also have "splitlines (join_lines (l' # ls)) = l' # ls" by (rule "3.IH"[OF rest])
  finally show ?case .
qed

lemma convert_lines_filter:
  "convert_lines b (filter (\<lambda>l. \<not> ignored_line l) ls) = convert_lines b ls"
proof (induction ls arbitrary: b)
  case Nil
  then show ?case by simp
next
  case (Cons l ls)
  show ?case
  proof (cases "ignored_line l")
    case True
    then show ?thesis using Cons.IH[of b] by (simp add: convert_line_ignored bind_def)
  next
    case False
    then show ?thesis using Cons.IH by simp
  qed
qed

lemma scan_of_output:
  "convert_obj_to_mesh txt = Inr out \<Longrightarrow> \<exists>b. scan txt = Inr b \<and> out = render b"
  by (auto simp: convert_obj_to_mesh_def bind_def split: sum.splits)

lemma concat_spaced_chars:
  "x \<in> set (concat (map (\<lambda>s. s @ '' '') strs)) \<Longrightarrow> (\<exists>s\<in>set strs. x \<in> set s) \<or> x = CHR '' ''"
  by (induction strs) auto

lemma indices_chars:
  assumes "scan txt = Inr b"
  shows "\<forall>c\<in>set (indices b). \<not> linebreak c"
proof -
  from scan_indices[OF assms] obtain ns strs where
    c: "indices b = concat (map (\<lambda>s. s @ '' '') strs)"
    and d: "split_ws (indices b) = strs"
    by blast
  have tok: "\<forall>t\<in>set strs. \<forall>c\<in>set t. \<not> isspace c"
    using split_ws_token[of _ "indices b"] d by blast
  show ?thesis
  proof
    fix x assume "x \<in> set (indices b)"
    then have "x \<in> set (concat (map (\<lambda>s. s @ '' '') strs))" by (simp only: c)
    from concat_spaced_chars[OF this] show "\<not> linebreak x"
    proof
      assume "\<exists>s\<in>set strs. x \<in> set s"
      with tok linebreak_isspace show ?thesis by blast
    next
      assume "x = CHR '' ''"
      with space_not_linebreak show ?thesis by simp
    qed
  qed
qed

lemma header_chars:
  "\<forall>c\<in>set '':Vertices''. \<not> linebreak c" "\<forall>c\<in>set '':Indices''. \<not> linebreak c"
  "\<forall>c\<in>set '':TexCoord''. \<not> linebreak c" "\<forall>c\<in>set '':Color''. \<not> linebreak c"
  by (simp_all add: linebreak_def)

lemma render_lines:
  assumes "vertices b = concat (map (\<lambda>l. l @ [CHR 0x0A]) vls)"
    and "tex_coords b = concat (map (\<lambda>l. l @ [CHR 0x0A]) tls)"
    and "\<forall>l\<in>set vls. \<forall>c\<in>set l. \<not> linebreak c"
    and "\<forall>l\<in>set tls. \<forall>c\<in>set l. \<not> linebreak c"
    and "\<forall>c\<in>set (indices b). \<not> linebreak c"
  shows "splitlines (render b)
           = '':Vertices'' # vls @ [[], '':Indices'', indices b, '':TexCoord''] @ tls @ [[], '':Color'']"
proof -
  let ?ls = "'':Vertices'' # vls @ [[], '':Indices'', indices b, '':TexCoord''] @ tls @ [[], '':Color'']"
  have r: "render b = concat (map (\<lambda>l. l @ [CHR 0x0A]) ?ls)"
    unfolding render_def assms(1,2) by simp
  have "\<forall>l\<in>set ?ls. \<forall>c\<in>set l. \<not> linebreak c"
  proof
    fix l assume "l \<in> set ?ls"
    then have "l = '':Vertices'' \<or> l \<in> set vls \<or> l = [] \<or> l = '':Indices'' \<or> l = indices b
        \<or> l = '':TexCoord'' \<or> l \<in> set tls \<or> l = '':Color''"
      by auto
    then show "\<forall>c\<in>set l. \<not> linebreak c"
      using assms(3,4,5) header_chars by (elim disjE) (simp_all only: list.set ball_empty, blast+)
  qed
  from splitlines_concat_terminated[OF this] show ?thesis by (simp only: r)
qed

section \<open>The claims\<close>

text \<open>
  C1, at the input where it fails. With two inputs and the single output \<open>out\<close>, the run
  succeeds, writes both conversions to the file \<open>out\<close> itself and creates neither
  \<open>out/a.mesh\<close> nor \<open>out/b.mesh\<close>, the paths that the directory rule derives: the branch
  \<open>elif is_directory\<close> that holds this rule comes after \<open>if is_single\<close>, and both flags
  are true exactly when there is one output path.
\<close>

theorem C1_single_output_is_not_a_directory:
  "fst (main [''a.obj'', ''b.obj'', ''-o'', ''out''] two_objs_disk) = Inr ()
   \<and> path_join ''out'' (path_stem ''a.obj'' @ ''.mesh'') = ''out/a.mesh''
   \<and> path_join ''out'' (path_stem ''b.obj'' @ ''.mesh'') = ''out/b.mesh''
   \<and> files (snd (main [''a.obj'', ''b.obj'', ''-o'', ''out''] two_objs_disk)) ''out/a.mesh'' = None
   \<and> files (snd (main [''a.obj'', ''b.obj'', ''-o'', ''out''] two_objs_disk)) ''out/b.mesh'' = None
   \<and> files (snd (main [''a.obj'', ''b.obj'', ''-o'', ''out''] two_objs_disk)) ''out''
        = Some '':Vertices\<newline>4 5 6\<newline>\<newline>:Indices\<newline>\<newline>:TexCoord\<newline>\<newline>:Color\<newline>''"
  by (simp add: two_objs_disk_def run_eval text_eval)

text \<open>
  C2, as the spec states it: on the three lines \<open>v 1.0 2.0 3.0\<close>, \<open>vt 0.5 0.5\<close>,
  \<open>f 1/1 2/2 3/3\<close> the converter would return a text with an empty line between the
  indices and the \<open>:TexCoord\<close> header. It does not.
\<close>

theorem C2_example_counterexample:
  "convert_obj_to_mesh ''v 1.0 2.0 3.0\<newline>vt 0.5 0.5\<newline>f 1/1 2/2 3/3''
     \<noteq> Inr '':Vertices\<newline>1.0 2.0 3.0\<newline>\<newline>:Indices\<newline>0 1 2 \<newline>\<newline>:TexCoord\<newline>0.5 0.5\<newline>\<newline>:Color\<newline>''"
  by (simp add: text_eval)

text \<open>
  C2, amended: on these three lines (with or without a final newline) the converter
  returns \<open>:Vertices\n1.0 2.0 3.0\n\n:Indices\n0 1 2 \n:TexCoord\n0.5 0.5\n\n:Color\n\<close>;
  the indices are not ended by a newline of their own, so a single newline separates
  them from \<open>:TexCoord\<close>.
\<close>

theorem C2_example:
  "convert_obj_to_mesh ''v 1.0 2.0 3.0\<newline>vt 0.5 0.5\<newline>f 1/1 2/2 3/3''
     = Inr '':Vertices\<newline>1.0 2.0 3.0\<newline>\<newline>:Indices\<newline>0 1 2 \<newline>:TexCoord\<newline>0.5 0.5\<newline>\<newline>:Color\<newline>''
   \<and> convert_obj_to_mesh ''v 1.0 2.0 3.0\<newline>vt 0.5 0.5\<newline>f 1/1 2/2 3/3\<newline>''
     = Inr '':Vertices\<newline>1.0 2.0 3.0\<newline>\<newline>:Indices\<newline>0 1 2 \<newline>:TexCoord\<newline>0.5 0.5\<newline>\<newline>:Color\<newline>''"
  by (simp add: text_eval)

text \<open>
  C5: when the arguments classify into a number of output paths that is neither 1 nor the
  number of input paths, the run raises \<open>Exception\<close> with the message
  \<open>invalid output: output should be equal to inputs or be one\<close>, and the file system and
  the log of reads and writes are what they were: nothing was read, written or converted.
\<close>

theorem C5_output_count_mismatch:
  assumes "classify_args False [] [] args = Inr (input_args, output_args)"
    and "length output_args \<noteq> 1"
    and "length output_args \<noteq> length input_args"
  shows "main args st
           = (Inl (Exception ''invalid output: output should be equal to inputs or be one''), st)"
  using assms by (simp add: main_def)

theorem C5_output_count_mismatch_witness:
  "classify_args False [] [] [''a.obj'', ''-o'', ''x.mesh'', ''y.mesh''] = Inr ([''a.obj''], [''x.mesh'', ''y.mesh''])
   \<and> length [''x.mesh'', ''y.mesh''] \<noteq> 1
   \<and> length [''x.mesh'', ''y.mesh''] \<noteq> length [''a.obj'']
   \<and> main [''a.obj'', ''-o'', ''x.mesh'', ''y.mesh''] two_objs_disk
        = (Inl (Exception ''invalid output: output should be equal to inputs or be one''), two_objs_disk)"
proof -
  have h: "classify_args False [] [] [''a.obj'', ''-o'', ''x.mesh'', ''y.mesh'']
             = Inr ([''a.obj''], [''x.mesh'', ''y.mesh''])"
    by simp
  show ?thesis
    using h C5_output_count_mismatch [OF h, of two_objs_disk] by simp
qed

text \<open>
  C9, as the spec states it: every argument list whose last token is \<open>-o\<close> would fail with
  an IndexError. The list \<open>-o -o\<close> ends in \<open>-o\<close> and the run succeeds: the second \<open>-o\<close> is
  read as the path that follows the first.
\<close>

theorem C9_last_flag_counterexample:
  "last [''-o'', ''-o''] = ''-o''
   \<and> classify_args False [] [] [''-o'', ''-o''] = Inr ([], [''-o''])
   \<and> main [''-o'', ''-o''] empty_disk = (Inr (), empty_disk)"
  by (simp add: main_def)

text \<open>
  C9, amended: for every argument list that ends in an odd number of consecutive \<open>-o\<close>
  tokens (so whenever the last token is \<open>-o\<close> and the one before it, if any, is not) the
  run fails with an IndexError during the classification, with the file system and the log
  of reads and writes untouched; for every argument list that ends in an even number of
  them (none included) the classification loop terminates normally.
\<close>

theorem C9_last_flag:
  "(odd (trailing_flags args) \<longrightarrow> main args st = (Inl IndexError, st)) \<and>
   (even (trailing_flags args) \<longrightarrow>
      (\<exists>input_args output_args. classify_args False [] [] args = Inr (input_args, output_args)))"
proof (intro conjI impI)
  assume "odd (trailing_flags args)"
  then have "classify_args False [] [] args = Inl IndexError"
    by (simp add: classify_args_error)
  then show "main args st = (Inl IndexError, st)" by (simp add: main_def)
next
  assume e: "even (trailing_flags args)"
  show "\<exists>input_args output_args. classify_args False [] [] args = Inr (input_args, output_args)"
  proof (cases "classify_args False [] [] args")
    case (Inl err)
    then have "classify_args False [] [] args = Inl IndexError"
      using classify_args_only_IndexError by blast
    with e show ?thesis by (simp add: classify_args_error)
  next
    case (Inr p)
    then show ?thesis by (cases p) simp
  qed
qed

theorem C9_last_flag_witness:
  "odd (trailing_flags [''a.obj'', ''-o''])
   \<and> main [''a.obj'', ''-o''] two_objs_disk = (Inl IndexError, two_objs_disk)
   \<and> even (trailing_flags [''a.obj'', ''-o'', ''a.mesh''])
   \<and> (\<exists>input_args output_args.
         classify_args False [] [] [''a.obj'', ''-o'', ''a.mesh''] = Inr (input_args, output_args))"
  using C9_last_flag [of "[''a.obj'', ''-o'']" two_objs_disk]
        C9_last_flag [of "[''a.obj'', ''-o'', ''a.mesh'']" two_objs_disk]
  by (simp add: trailing_flags_def)

text \<open>
  C4: when the arguments classify into as many output paths as input paths and the run
  succeeds, the run reads the inputs and writes the outputs in this order: input 0,
  output 0, input 1, output 1, and so on, and what it writes to the k-th output is the
  converter applied to the text it has just read from the k-th input (the text of that
  file after the writes to the outputs before it). The final file system is the initial
  one with every output set to what was written to it. When no input is also an output,
  the text read is the one of the initial file system; when the outputs are distinct, the
  k-th output holds the conversion of the k-th input at the end.
\<close>

theorem C4_parallel_outputs:
  assumes "classify_args False [] [] args = Inr (input_args, output_args)"
    and "length output_args = length input_args"
    and "main args st = (Inr (), st')"
  shows "\<exists>datas. length datas = length input_args
           \<and> io_log st' = io_log st
                @ concat (map (\<lambda>(p, tg, dt). [ReadFile p, WriteFile tg dt])
                    (zip input_args (zip output_args datas)))
           \<and> (\<forall>k<length input_args.
                 \<exists>t. ((files st)(take k output_args [\<mapsto>] take k datas)) (input_args ! k) = Some t
                    \<and> convert_obj_to_mesh t = Inr (datas ! k))
           \<and> files st' = (files st)(output_args [\<mapsto>] datas)
           \<and> (set input_args \<inter> set output_args = {} \<longrightarrow>
                (\<forall>k<length input_args.
                   \<exists>t. files st (input_args ! k) = Some t \<and> convert_obj_to_mesh t = Inr (datas ! k)))
           \<and> (distinct output_args \<longrightarrow>
                (\<forall>k<length input_args. files st' (output_args ! k) = Some (datas ! k)))"
proof -
  let ?n = "length input_args"
  let ?s = "length output_args = 1"
  have run: "convert_all ?s ?s output_args 0 input_args st = (Inr (), st')"
    using assms by (simp add: main_def Let_def split: if_splits)
  have tg: "\<forall>k<?n. output_path ?s ?s output_args (0 + k) (input_args ! k) = Inr (output_args ! k)"
    using assms(2) by (auto simp: output_path_def index_def)
  from convert_all_ok[OF run assms(2) tg] obtain datas where
    l: "length datas = ?n"
    and f: "files st' = (files st)(output_args [\<mapsto>] datas)"
    and g: "io_log st' = io_log st
                @ concat (map (\<lambda>(p, tg, dt). [ReadFile p, WriteFile tg dt])
                    (zip input_args (zip output_args datas)))"
    and r: "\<forall>k<?n. \<exists>t. ((files st)(take k output_args [\<mapsto>] take k datas)) (input_args ! k) = Some t
                  \<and> convert_obj_to_mesh t = Inr (datas ! k)"
    by auto
  have dj: "set input_args \<inter> set output_args = {} \<longrightarrow>
                (\<forall>k<?n. \<exists>t. files st (input_args ! k) = Some t \<and> convert_obj_to_mesh t = Inr (datas ! k))"
  proof (intro impI allI)
    fix k assume d: "set input_args \<inter> set output_args = {}" and k: "k < ?n"
    then have "input_args ! k \<notin> set output_args" by (meson disjoint_iff nth_mem)
    then have "input_args ! k \<notin> set (take k output_args)" by (meson in_set_takeD)
    then have e: "((files st)(take k output_args [\<mapsto>] take k datas)) (input_args ! k) = files st (input_args ! k)"
      by simp
    from r[rule_format, OF k] show "\<exists>t. files st (input_args ! k) = Some t \<and> convert_obj_to_mesh t = Inr (datas ! k)"
      unfolding e .
  qed
  have ds: "distinct output_args \<longrightarrow> (\<forall>k<?n. files st' (output_args ! k) = Some (datas ! k))"
    using f l assms(2) by (simp add: map_upds_nth_distinct)
  from l g r f dj ds show ?thesis by blast
qed

theorem C4_parallel_outputs_witness:
  "classify_args False [] [] parallel_args = Inr ([''a.obj'', ''b.obj''], [''a.mesh'', ''b.mesh''])
   \<and> length [''a.mesh'', ''b.mesh''] = length [''a.obj'', ''b.obj'']
   \<and> main parallel_args two_objs_disk = (Inr (), snd (main parallel_args two_objs_disk))
   \<and> set [''a.obj'', ''b.obj''] \<inter> set [''a.mesh'', ''b.mesh''] = {}
   \<and> distinct [''a.mesh'', ''b.mesh'']
   \<and> (\<exists>datas. length datas = 2
        \<and> convert_obj_to_mesh ''v 1 2 3'' = Inr (datas ! 0)
        \<and> convert_obj_to_mesh ''v 4 5 6'' = Inr (datas ! 1)
        \<and> files (snd (main parallel_args two_objs_disk)) ''a.mesh'' = Some (datas ! 0)
        \<and> files (snd (main parallel_args two_objs_disk)) ''b.mesh'' = Some (datas ! 1))"
proof -
  have dj: "set [''a.obj'', ''b.obj''] \<inter> set [''a.mesh'', ''b.mesh''] = {}" by simp
  have ds: "distinct [''a.mesh'', ''b.mesh'']" by simp
  from C4_parallel_outputs [OF parallel_run(1) _ parallel_run(2)] obtain datas where
    l: "length datas = length [''a.obj'', ''b.obj'']"
    and a: "set [''a.obj'', ''b.obj''] \<inter> set [''a.mesh'', ''b.mesh''] = {} \<longrightarrow>
        (\<forall>k<length [''a.obj'', ''b.obj''].
           \<exists>t. files two_objs_disk ([''a.obj'', ''b.obj''] ! k) = Some t \<and> convert_obj_to_mesh t = Inr (datas ! k))"
    and b: "distinct [''a.mesh'', ''b.mesh''] \<longrightarrow>
        (\<forall>k<length [''a.obj'', ''b.obj''].
           files (snd (main parallel_args two_objs_disk)) ([''a.mesh'', ''b.mesh''] ! k) = Some (datas ! k))"
    by auto
  have two: "(0::nat) < length [''a.obj'', ''b.obj'']" "(1::nat) < length [''a.obj'', ''b.obj'']"
    by simp_all
  note a' = a[rule_format, OF dj] and b' = b[rule_format, OF ds]
  from a'[OF two(1)] have a0: "\<exists>t. files two_objs_disk ''a.obj'' = Some t \<and> convert_obj_to_mesh t = Inr (datas ! 0)"
    by simp
  from a'[OF two(2)] have a1: "\<exists>t. files two_objs_disk ''b.obj'' = Some t \<and> convert_obj_to_mesh t = Inr (datas ! 1)"
    by simp
  from b'[OF two(1)] have b0: "files (snd (main parallel_args two_objs_disk)) ''a.mesh'' = Some (datas ! 0)"
    by simp
  from b'[OF two(2)] have b1: "files (snd (main parallel_args two_objs_disk)) ''b.mesh'' = Some (datas ! 1)"
    by simp
  from a0 have c0: "convert_obj_to_mesh ''v 1 2 3'' = Inr (datas ! 0)" by (simp add: two_objs_disk_def)
  from a1 have c1: "convert_obj_to_mesh ''v 4 5 6'' = Inr (datas ! 1)" by (simp add: two_objs_disk_def)
  from l c0 c1 b0 b1 have "\<exists>datas. length datas = 2
        \<and> convert_obj_to_mesh ''v 1 2 3'' = Inr (datas ! 0)
        \<and> convert_obj_to_mesh ''v 4 5 6'' = Inr (datas ! 1)
        \<and> files (snd (main parallel_args two_objs_disk)) ''a.mesh'' = Some (datas ! 0)
        \<and> files (snd (main parallel_args two_objs_disk)) ''b.mesh'' = Some (datas ! 1)"
    by (intro exI[of _ datas]) simp
  with parallel_run dj ds show ?thesis by simp
qed

text \<open>
  C6, as the spec states it: every text with a short \<open>v\<close> or \<open>vt\<close> line would raise an
  index error. In the text \<open>f x\<close>, \<open>v 1 2\<close> the second line is short, and the converter
  raises a ValueError at the first: \<open>x\<close> is not an integer.
\<close>

theorem C6_short_record_counterexample:
  "short_record (splitlines ''f x\<newline>v 1 2'' ! 1)
   \<and> convert_obj_to_mesh ''f x\<newline>v 1 2'' = Inl ValueError
   \<and> convert_obj_to_mesh ''f x\<newline>v 1 2'' \<noteq> Inl IndexError"
  by (simp add: text_eval2)

text \<open>
  C6, amended: for every text with a \<open>v\<close> line of fewer than 3 fields or a \<open>vt\<close> line of
  fewer than 2, the converter raises an error: an IndexError when the lines before the
  first such line convert without error, and otherwise the ValueError that an \<open>f\<close> field
  among them raises. In the loop over the input files the error ends the loop at that
  file: the file was read, nothing is written and the file system is unchanged. For every
  text where each \<open>v\<close> line has at least 3 fields and each \<open>vt\<close> line at least 2, the
  converter does not raise an IndexError.
\<close>

theorem C6_short_record:
  "((\<exists>l\<in>set (splitlines txt). short_record l) \<longrightarrow>
      convert_obj_to_mesh txt =
        (if isl (convert_lines \<lparr>tex_coords = [], indices = [], vertices = []\<rparr>
                   (takeWhile (\<lambda>l. \<not> short_record l) (splitlines txt)))
         then Inl ValueError else Inl IndexError)
      \<and> (files st p = Some txt \<longrightarrow>
           (\<exists>e. convert_all s d outs i (p # rest) st
                  = (Inl e, st\<lparr>io_log := io_log st @ [ReadFile p]\<rparr>))))
   \<and> ((\<forall>l\<in>set (splitlines txt). \<not> short_record l) \<longrightarrow> convert_obj_to_mesh txt \<noteq> Inl IndexError)"
proof (intro conjI impI)
  assume sh: "\<exists>l\<in>set (splitlines txt). short_record l"
  have sc: "scan txt = (if isl (convert_lines \<lparr>tex_coords = [], indices = [], vertices = []\<rparr>
                   (takeWhile (\<lambda>l. \<not> short_record l) (splitlines txt)))
         then Inl ValueError else Inl IndexError)"
    unfolding scan_def by (rule convert_lines_first_short[OF sh])
  then show cv: "convert_obj_to_mesh txt =
        (if isl (convert_lines \<lparr>tex_coords = [], indices = [], vertices = []\<rparr>
                   (takeWhile (\<lambda>l. \<not> short_record l) (splitlines txt)))
         then Inl ValueError else Inl IndexError)"
    by (simp add: convert_obj_to_mesh_def bind_def)
  assume f: "files st p = Some txt"
  from cv obtain e where "convert_obj_to_mesh txt = Inl e" by (auto split: if_splits)
  from convert_all_convert_error[OF f this]
  show "\<exists>e. convert_all s d outs i (p # rest) st = (Inl e, st\<lparr>io_log := io_log st @ [ReadFile p]\<rparr>)"
    by blast
next
  assume ok: "\<forall>l\<in>set (splitlines txt). \<not> short_record l"
  show "convert_obj_to_mesh txt \<noteq> Inl IndexError"
  proof
    assume "convert_obj_to_mesh txt = Inl IndexError"
    then have "scan txt = Inl IndexError"
      by (auto simp: convert_obj_to_mesh_def bind_def split: sum.splits)
    from convert_lines_error[OF this[unfolded scan_def]] ok show False by auto
  qed
qed

theorem C6_short_record_witness:
  "splitlines ''v 1 2'' = [''v 1 2'']
   \<and> short_record ''v 1 2''
   \<and> convert_obj_to_mesh ''v 1 2'' = Inl IndexError
   \<and> files short_disk ''bad.obj'' = Some ''v 1 2''
   \<and> convert_all True True [''out''] 0 [''bad.obj''] short_disk
         = (Inl IndexError, short_disk\<lparr>io_log := io_log short_disk @ [ReadFile ''bad.obj'']\<rparr>)
   \<and> splitlines ''v 1 2 3'' = [''v 1 2 3'']
   \<and> \<not> short_record ''v 1 2 3''
   \<and> convert_obj_to_mesh ''v 1 2 3'' \<noteq> Inl IndexError"
proof -
  have s1: "splitlines ''v 1 2'' = [''v 1 2'']" and s2: "short_record ''v 1 2''"
    by (simp_all add: text_eval2)
  have s3: "splitlines ''v 1 2 3'' = [''v 1 2 3'']" and s4: "\<not> short_record ''v 1 2 3''"
    by (simp_all add: text_eval2)
  have h1: "\<exists>l\<in>set (splitlines ''v 1 2''). short_record l" using s1 s2 by simp
  have h2: "files short_disk ''bad.obj'' = Some ''v 1 2''" by (simp add: short_disk_def)
  have h3: "\<forall>l\<in>set (splitlines ''v 1 2 3''). \<not> short_record l" using s3 s4 by simp
  have e: "\<not> isl (convert_lines \<lparr>tex_coords = [], indices = [], vertices = []\<rparr>
                   (takeWhile (\<lambda>l. \<not> short_record l) (splitlines ''v 1 2'')))"
    using s1 s2 by simp
  from C6_short_record [of "''v 1 2''" short_disk "''bad.obj''" True True "[''out'']" 0 "[]"] h1 h2 e
  have a: "convert_obj_to_mesh ''v 1 2'' = Inl IndexError"
    and b: "\<exists>e. convert_all True True [''out''] 0 [''bad.obj''] short_disk
              = (Inl e, short_disk\<lparr>io_log := io_log short_disk @ [ReadFile ''bad.obj'']\<rparr>)"
    by auto
  from b h2 a have b': "convert_all True True [''out''] 0 [''bad.obj''] short_disk
         = (Inl IndexError, short_disk\<lparr>io_log := io_log short_disk @ [ReadFile ''bad.obj'']\<rparr>)"
    by (simp add: convert_obj_to_mesh_file_def read_file_def)
  from C6_short_record [of "''v 1 2 3''" short_disk "''bad.obj''" True True "[''out'']" 0 "[]"] h3
  have c: "convert_obj_to_mesh ''v 1 2 3'' \<noteq> Inl IndexError" by blast
  from s1 s2 a h2 b' s3 s4 c show ?thesis by blast
qed

text \<open>
  C10, as the spec states it: with one output path no file named by an input's stem and
  \<open>.mesh\<close> would ever be created. The command line \<open>a.obj -o a.mesh\<close> has one output
  path and one input; the run succeeds and creates \<open>a.mesh\<close>, which did not exist.
\<close>

theorem C10_single_output_overwritten_counterexample:
  "classify_args False [] [] [''a.obj'', ''-o'', ''a.mesh''] = Inr ([''a.obj''], [''a.mesh''])
   \<and> fst (main [''a.obj'', ''-o'', ''a.mesh''] two_objs_disk) = Inr ()
   \<and> path_stem ''a.obj'' @ ''.mesh'' = ''a.mesh''
   \<and> files two_objs_disk ''a.mesh'' = None
   \<and> files (snd (main [''a.obj'', ''-o'', ''a.mesh''] two_objs_disk)) ''a.mesh''
        = Some '':Vertices\<newline>1 2 3\<newline>\<newline>:Indices\<newline>\<newline>:TexCoord\<newline>\<newline>:Color\<newline>''"
  by (simp add: two_objs_disk_def run_eval text_eval)

text \<open>
  C10, amended: when the arguments classify into one output path and at least one input
  path and the run succeeds, the run reads each input in order and writes its conversion to
  that one path, each write replacing the one before; the text converted is the one the
  file has when it is read (for an input that is the output path itself, what the step
  before wrote). At the end the file at the output path holds the conversion of the last
  input, and every other path is as it was: a file named by an input's stem and \<open>.mesh\<close>
  is created only when the output path itself is that name, and the path that the
  directory rule derives, the output path joined with that name, is never created.
\<close>

theorem C10_single_output_overwritten:
  assumes "classify_args False [] [] args = Inr (input_args, [out])"
    and "input_args \<noteq> []"
    and "main args st = (Inr (), st')"
  shows "\<exists>datas. length datas = length input_args
           \<and> io_log st' = io_log st
                @ concat (map (\<lambda>(p, dt). [ReadFile p, WriteFile out dt]) (zip input_args datas))
           \<and> (\<forall>k<length input_args.
                 \<exists>t. (if k = 0 then files st else (files st)(out \<mapsto> datas ! (k - 1))) (input_args ! k) = Some t
                    \<and> convert_obj_to_mesh t = Inr (datas ! k))
           \<and> files st' = (files st)(out \<mapsto> last datas)
           \<and> (\<forall>q. q \<noteq> out \<longrightarrow> files st' q = files st q)
           \<and> (\<forall>p\<in>set input_args.
                 path_join out (path_stem p @ ''.mesh'') \<noteq> out
                 \<and> files st' (path_join out (path_stem p @ ''.mesh''))
                     = files st (path_join out (path_stem p @ ''.mesh'')))"
proof -
  let ?n = "length input_args"
  have run: "convert_all True True [out] 0 input_args st = (Inr (), st')"
    using assms(1,3) by (simp add: main_single)
  have tg: "\<forall>k<?n. output_path True True [out] (0 + k) (input_args ! k) = Inr (replicate ?n out ! k)"
    by (simp add: output_path_def index_def)
  from convert_all_ok[OF run _ tg] obtain datas where
    l: "length datas = ?n"
    and f: "files st' = (files st)(replicate ?n out [\<mapsto>] datas)"
    and g: "io_log st' = io_log st
                @ concat (map (\<lambda>(p, tg, dt). [ReadFile p, WriteFile tg dt])
                    (zip input_args (zip (replicate ?n out) datas)))"
    and r: "\<forall>k<?n. \<exists>t. ((files st)(take k (replicate ?n out) [\<mapsto>] take k datas)) (input_args ! k) = Some t
                  \<and> convert_obj_to_mesh t = Inr (datas ! k)"
    by auto
  have n0: "0 < ?n" using assms(2) by simp
  have f': "files st' = (files st)(out \<mapsto> last datas)"
    using f map_upds_replicate[OF l n0] by simp
  have g': "io_log st' = io_log st
                @ concat (map (\<lambda>(p, dt). [ReadFile p, WriteFile out dt]) (zip input_args datas))"
    using g log_replicate[of input_args datas out] l by simp
  have r': "\<forall>k<?n. \<exists>t. (if k = 0 then files st else (files st)(out \<mapsto> datas ! (k - 1))) (input_args ! k) = Some t
                    \<and> convert_obj_to_mesh t = Inr (datas ! k)"
  proof (intro allI impI)
    fix k assume k: "k < ?n"
    show "\<exists>t. (if k = 0 then files st else (files st)(out \<mapsto> datas ! (k - 1))) (input_args ! k) = Some t
                    \<and> convert_obj_to_mesh t = Inr (datas ! k)"
    proof (cases "k = 0")
      case True
      with r k show ?thesis by auto
    next
      case False
      have tk: "take k (replicate ?n out) = replicate k out" using k by (simp add: min_def)
      have lk: "length (take k datas) = k" using k l by simp
      have "last (take k datas) = datas ! (k - 1)"
        using False k l lk by (metis last_conv_nth length_0_conv nth_take diff_less zero_less_one neq0_conv)
      then have "(files st)(take k (replicate ?n out) [\<mapsto>] take k datas) = (files st)(out \<mapsto> datas ! (k - 1))"
        using map_upds_replicate[OF lk, of "files st" out] False tk by simp
      with r k False show ?thesis by auto
    qed
  qed
  have d: "\<forall>p\<in>set input_args.
                 path_join out (path_stem p @ ''.mesh'') \<noteq> out
                 \<and> files st' (path_join out (path_stem p @ ''.mesh''))
                     = files st (path_join out (path_stem p @ ''.mesh''))"
    using f' path_join_derived_neq by simp
  have o: "\<forall>q. q \<noteq> out \<longrightarrow> files st' q = files st q"
    using f' by simp
  from l g' r' f' o d show ?thesis by blast
qed

theorem C10_single_output_overwritten_witness:
  "classify_args False [] [] single_args = Inr ([''a.obj'', ''b.obj''], [''out''])
   \<and> [''a.obj'', ''b.obj''] \<noteq> []
   \<and> main single_args two_objs_disk = (Inr (), snd (main single_args two_objs_disk))
   \<and> (\<exists>datas. length datas = 2
        \<and> io_log (snd (main single_args two_objs_disk))
            = [ReadFile ''a.obj'', WriteFile ''out'' (datas ! 0), ReadFile ''b.obj'', WriteFile ''out'' (datas ! 1)]
        \<and> convert_obj_to_mesh ''v 4 5 6'' = Inr (datas ! 1)
        \<and> files (snd (main single_args two_objs_disk)) ''out'' = Some (datas ! 1)
        \<and> files (snd (main single_args two_objs_disk)) ''out/a.mesh'' = None)"
proof -
  have ne: "[''a.obj'', ''b.obj''] \<noteq> []" by simp
  from C10_single_output_overwritten [OF single_run(1) ne single_run(2)] obtain datas where
    l: "length datas = length [''a.obj'', ''b.obj'']"
    and g: "io_log (snd (main single_args two_objs_disk)) = io_log two_objs_disk
                @ concat (map (\<lambda>(p, dt). [ReadFile p, WriteFile ''out'' dt]) (zip [''a.obj'', ''b.obj''] datas))"
    and r: "\<forall>k<length [''a.obj'', ''b.obj''].
                 \<exists>t. (if k = 0 then files two_objs_disk else (files two_objs_disk)(''out'' \<mapsto> datas ! (k - 1)))
                        ([''a.obj'', ''b.obj''] ! k) = Some t
                    \<and> convert_obj_to_mesh t = Inr (datas ! k)"
    and f: "files (snd (main single_args two_objs_disk)) = (files two_objs_disk)(''out'' \<mapsto> last datas)"
    and d: "\<forall>p\<in>set [''a.obj'', ''b.obj''].
                 path_join ''out'' (path_stem p @ ''.mesh'') \<noteq> ''out''
                 \<and> files (snd (main single_args two_objs_disk)) (path_join ''out'' (path_stem p @ ''.mesh''))
                     = files two_objs_disk (path_join ''out'' (path_stem p @ ''.mesh''))"
    by auto
  from l obtain d0 d1 where datas: "datas = [d0, d1]"
    by (cases datas; cases "tl datas") auto
  from r[rule_format, of 1] datas have c1: "convert_obj_to_mesh ''v 4 5 6'' = Inr d1"
    by (simp add: two_objs_disk_def)
  from g datas have g': "io_log (snd (main single_args two_objs_disk))
            = [ReadFile ''a.obj'', WriteFile ''out'' d0, ReadFile ''b.obj'', WriteFile ''out'' d1]"
    by (simp add: two_objs_disk_def)
  from f datas have f': "files (snd (main single_args two_objs_disk)) ''out'' = Some d1" by simp
  have pj: "path_join ''out'' (path_stem ''a.obj'' @ ''.mesh'') = ''out/a.mesh''"
    by (simp add: run_eval)
  from d pj have d': "files (snd (main single_args two_objs_disk)) ''out/a.mesh'' = None"
    by (simp add: two_objs_disk_def)
  have "\<exists>datas. length datas = 2
        \<and> io_log (snd (main single_args two_objs_disk))
            = [ReadFile ''a.obj'', WriteFile ''out'' (datas ! 0), ReadFile ''b.obj'', WriteFile ''out'' (datas ! 1)]
        \<and> convert_obj_to_mesh ''v 4 5 6'' = Inr (datas ! 1)
        \<and> files (snd (main single_args two_objs_disk)) ''out'' = Some (datas ! 1)
        \<and> files (snd (main single_args two_objs_disk)) ''out/a.mesh'' = None"
    using c1 g' f' d' by (intro exI[of _ "[d0, d1]"]) simp
  with single_run ne show ?thesis by simp
qed

text \<open>
  C3: when the converter accepts a text, every field of every \<open>f\<close> line, whatever the
  number of fields of the line, has a first \<open>/\<close>-segment that parses as an integer, and
  the Indices buffer is, for these fields in input order, the decimal text of that integer
  minus 1 followed by one space. So the tokens of the Indices section are these texts in
  the same order, and the i-th of them reads back as the integer of the i-th field minus 1.
\<close>

theorem C3_index_transform:
  assumes "scan txt = Inr b"
  shows "convert_obj_to_mesh txt = Inr (render b)
       \<and> (\<exists>ns strs.
           map (\<lambda>p. py_int (hd (split_char CHR ''/'' p))) (face_slots (splitlines txt)) = map Inr ns
         \<and> map (\<lambda>n. py_str (n - 1)) ns = map Inr strs
         \<and> indices b = concat (map (\<lambda>s. s @ '' '') strs)
         \<and> split_ws (indices b) = strs
         \<and> map py_int (split_ws (indices b)) = map (\<lambda>n. Inr (n - 1)) ns)"
  using scan_render[OF assms] scan_indices[OF assms] by blast

theorem C3_index_transform_witness:
  "scan quad_text = Inr quad_buffers
   \<and> convert_obj_to_mesh quad_text = Inr (render quad_buffers)
   \<and> (\<exists>ns strs.
         map (\<lambda>p. py_int (hd (split_char CHR ''/'' p))) (face_slots (splitlines quad_text)) = map Inr ns
       \<and> map (\<lambda>n. py_str (n - 1)) ns = map Inr strs
       \<and> indices quad_buffers = concat (map (\<lambda>s. s @ '' '') strs)
       \<and> split_ws (indices quad_buffers) = strs
       \<and> map py_int (split_ws (indices quad_buffers)) = map (\<lambda>n. Inr (n - 1)) ns)"
proof -
  have h: "scan quad_text = Inr quad_buffers"
    by (simp add: quad_text_def quad_buffers_def text_eval)
  show ?thesis by (rule conjI[OF h C3_index_transform [OF h]])
qed

text \<open>
  C7: for every text, deleting the blank lines and the lines whose first token is none of
  \<open>v\<close>, \<open>vt\<close>, \<open>f\<close> leaves exactly the other lines, and the converter returns the same
  on the text and on the text without these lines: the same three buffers and the same
  output, or the same error.
\<close>

theorem C7_ignored_lines:
  "splitlines (delete_ignored txt) = filter (\<lambda>l. \<not> ignored_line l) (splitlines txt)
   \<and> scan (delete_ignored txt) = scan txt
   \<and> convert_obj_to_mesh (delete_ignored txt) = convert_obj_to_mesh txt"
proof -
  let ?kept = "filter (\<lambda>l. \<not> ignored_line l) (splitlines txt)"
  have "\<forall>l\<in>set ?kept. l \<noteq> [] \<and> (\<forall>c\<in>set l. \<not> linebreak c)"
    using kept_nonempty splitlines_line by auto
  then have s: "splitlines (delete_ignored txt) = ?kept"
    unfolding delete_ignored_def by (rule splitlines_join_lines)
  have sc: "scan (delete_ignored txt) = scan txt"
    unfolding scan_def s by (rule convert_lines_filter)
  from s sc show ?thesis by (simp add: convert_obj_to_mesh_def)
qed

theorem C7_ignored_lines_witness:
  "delete_ignored noisy_text = ''v 1 2 3\<newline>f 1''
   \<and> convert_obj_to_mesh ''v 1 2 3\<newline>f 1'' = convert_obj_to_mesh noisy_text"
proof -
  have sl: "splitlines noisy_text = [''# c'', ''v 1 2 3'', [], ''o x'', ''f 1'']"
    by (simp add: noisy_text_def text_eval)
  have d: "delete_ignored noisy_text = ''v 1 2 3\<newline>f 1''"
    unfolding delete_ignored_def sl by (simp add: spec_eval text_eval)
  from C7_ignored_lines [of noisy_text] show ?thesis unfolding d by (intro conjI refl) simp
qed

text \<open>
  C8: when the converter returns an output for a text, the lines of the output are the
  header \<open>:Vertices\<close>; then, as the Vertices section, one line per \<open>v\<close> line of the text,
  in order of appearance, holding its first three fields; the empty line that the template
  puts before the next header; the header \<open>:Indices\<close>; the Indices section, on one line;
  the header \<open>:TexCoord\<close>; then, as the TexCoord section, one line per \<open>vt\<close> line of the
  text, in order of appearance, holding its first two fields; an empty line; and the header
  \<open>:Color\<close>. When every \<open>f\<close> line has exactly 3 fields, the Indices section holds 3
  times the number of \<open>f\<close> lines tokens, each of them an integer.
\<close>

theorem C8_section_counts:
  assumes "convert_obj_to_mesh txt = Inr out"
  shows "\<exists>ind. splitlines out
             = '':Vertices'' # map v_line (filter (tagged ''v'') (splitlines txt))
               @ [[], '':Indices'', ind, '':TexCoord'']
               @ map vt_line (filter (tagged ''vt'') (splitlines txt))
               @ [[], '':Color'']
         \<and> ((\<forall>l\<in>set (filter (tagged ''f'') (splitlines txt)). length (tl (fields l)) = 3) \<longrightarrow>
              length (split_ws ind) = 3 * length (filter (tagged ''f'') (splitlines txt))
              \<and> (\<forall>t\<in>set (split_ws ind). \<exists>n. py_int t = Inr n))"
proof -
  let ?ls = "splitlines txt"
  from scan_of_output[OF assms] obtain b where sc: "scan txt = Inr b" and out: "out = render b"
    by blast
  note cl = sc[unfolded scan_def]
  from convert_lines_vertices[OF cl]
  have v: "vertices b = concat (map (\<lambda>l. v_line l @ ''\<newline>'') (filter (tagged ''v'') ?ls))"
    and vl: "\<forall>l\<in>set (filter (tagged ''v'') ?ls). 3 \<le> length (tl (fields l))"
    by simp_all
  from convert_lines_tex_coords[OF cl]
  have t: "tex_coords b = concat (map (\<lambda>l. vt_line l @ ''\<newline>'') (filter (tagged ''vt'') ?ls))"
    and tl: "\<forall>l\<in>set (filter (tagged ''vt'') ?ls). 2 \<le> length (tl (fields l))"
    by simp_all
  have vc: "\<forall>l\<in>set (map v_line (filter (tagged ''v'') ?ls)). \<forall>c\<in>set l. \<not> linebreak c"
  proof
    fix x assume "x \<in> set (map v_line (filter (tagged ''v'') ?ls))"
    then obtain l where l: "l \<in> set (filter (tagged ''v'') ?ls)" and x: "x = v_line l" by auto
    from vl l have "3 \<le> length (tl (fields l))" by blast
    from v_line_chars[OF this] x show "\<forall>c\<in>set x. \<not> linebreak c" by simp
  qed
  have tc: "\<forall>l\<in>set (map vt_line (filter (tagged ''vt'') ?ls)). \<forall>c\<in>set l. \<not> linebreak c"
  proof
    fix x assume "x \<in> set (map vt_line (filter (tagged ''vt'') ?ls))"
    then obtain l where l: "l \<in> set (filter (tagged ''vt'') ?ls)" and x: "x = vt_line l" by auto
    from tl l have "2 \<le> length (tl (fields l))" by blast
    from vt_line_chars[OF this] x show "\<forall>c\<in>set x. \<not> linebreak c" by simp
  qed
  have v': "vertices b = concat (map (\<lambda>l. l @ [CHR 0x0A]) (map v_line (filter (tagged ''v'') ?ls)))"
    by (subst concat_map_terminated[symmetric]) (rule v)
  have t': "tex_coords b = concat (map (\<lambda>l. l @ [CHR 0x0A]) (map vt_line (filter (tagged ''vt'') ?ls)))"
    by (subst concat_map_terminated[symmetric]) (rule t)
  have lines: "splitlines out
             = '':Vertices'' # map v_line (filter (tagged ''v'') ?ls)
               @ [[], '':Indices'', indices b, '':TexCoord'']
               @ map vt_line (filter (tagged ''vt'') ?ls)
               @ [[], '':Color'']"
    unfolding out by (rule render_lines[OF v' t' vc tc indices_chars[OF sc]])
  from scan_indices[OF sc] obtain ns strs where
    a: "map (\<lambda>p. py_int (hd (split_char CHR ''/'' p))) (face_slots ?ls) = map Inr ns"
    and e: "map py_int (split_ws (indices b)) = map (\<lambda>n. Inr (n - 1)) ns"
    by blast
  from a have "length (face_slots ?ls) = length ns" by (metis length_map)
  moreover from e have "length (split_ws (indices b)) = length ns" by (metis length_map)
  ultimately have ln: "length (split_ws (indices b)) = length (face_slots ?ls)" by (rule ssubst)
  have ints: "\<forall>t\<in>set (split_ws (indices b)). \<exists>n. py_int t = Inr n"
  proof
    fix t assume "t \<in> set (split_ws (indices b))"
    then have "py_int t \<in> set (map py_int (split_ws (indices b)))" by (simp only: set_map) (rule imageI)
    then have "py_int t \<in> set (map (\<lambda>n. Inr (n - 1)) ns)" by (simp only: e)
    then show "\<exists>n. py_int t = Inr n" by auto
  qed
  have f: "(\<forall>l\<in>set (filter (tagged ''f'') ?ls). length (tl (fields l)) = 3) \<longrightarrow>
            length (split_ws (indices b)) = 3 * length (filter (tagged ''f'') ?ls)
            \<and> (\<forall>t\<in>set (split_ws (indices b)). \<exists>n. py_int t = Inr n)"
  proof (intro impI conjI)
    assume "\<forall>l\<in>set (filter (tagged ''f'') ?ls). length (tl (fields l)) = 3"
    from length_face_slots[OF this] show "length (split_ws (indices b)) = 3 * length (filter (tagged ''f'') ?ls)"
      by (simp only: ln)
  next
    show "\<forall>t\<in>set (split_ws (indices b)). \<exists>n. py_int t = Inr n" by (rule ints)
  qed
  from lines f show ?thesis by (intro exI[of _ "indices b"] conjI)
qed

theorem C8_section_counts_witness:
  "convert_obj_to_mesh mesh_text = Inr mesh_output
   \<and> filter (tagged ''v'') (splitlines mesh_text) = [''v 1 2 3'']
   \<and> filter (tagged ''vt'') (splitlines mesh_text) = [''vt 0 1'']
   \<and> filter (tagged ''f'') (splitlines mesh_text) = [''f 1 2 3'', ''f 2 3 4'']
   \<and> length (tl (fields ''f 1 2 3'')) = 3 \<and> length (tl (fields ''f 2 3 4'')) = 3
   \<and> (\<exists>ind. splitlines mesh_output
             = '':Vertices'' # map v_line [''v 1 2 3'']
               @ [[], '':Indices'', ind, '':TexCoord'']
               @ map vt_line [''vt 0 1'']
               @ [[], '':Color'']
         \<and> length (split_ws ind) = 3 * length [''f 1 2 3'', ''f 2 3 4''])"
proof -
  have h: "convert_obj_to_mesh mesh_text = Inr mesh_output"
    by (simp add: mesh_text_def mesh_output_def text_eval)
  have sl: "splitlines mesh_text = [''v 1 2 3'', ''vt 0 1'', ''f 1 2 3'', ''f 2 3 4'']"
    by (simp add: mesh_text_def text_eval)
  have fv: "filter (tagged ''v'') (splitlines mesh_text) = [''v 1 2 3'']"
    and fvt: "filter (tagged ''vt'') (splitlines mesh_text) = [''vt 0 1'']"
    and ff: "filter (tagged ''f'') (splitlines mesh_text) = [''f 1 2 3'', ''f 2 3 4'']"
    unfolding sl by (simp_all add: spec_eval text_eval)
  have l3: "length (tl (fields ''f 1 2 3'')) = 3" "length (tl (fields ''f 2 3 4'')) = 3"
    by (simp_all add: spec_eval text_eval)
  have tri: "\<forall>l\<in>set (filter (tagged ''f'') (splitlines mesh_text)). length (tl (fields l)) = 3"
    unfolding ff using l3 by simp
  from C8_section_counts [OF h] tri obtain ind where
    a: "splitlines mesh_output
             = '':Vertices'' # map v_line (filter (tagged ''v'') (splitlines mesh_text))
               @ [[], '':Indices'', ind, '':TexCoord'']
               @ map vt_line (filter (tagged ''vt'') (splitlines mesh_text))
               @ [[], '':Color'']"
    and c: "length (split_ws ind) = 3 * length (filter (tagged ''f'') (splitlines mesh_text))"
    by blast
  have "\<exists>ind. splitlines mesh_output
             = '':Vertices'' # map v_line [''v 1 2 3'']
               @ [[], '':Indices'', ind, '':TexCoord'']
               @ map vt_line [''vt 0 1'']
               @ [[], '':Color'']
         \<and> length (split_ws ind) = 3 * length [''f 1 2 3'', ''f 2 3 4'']"
    using a[unfolded fv fvt] c[unfolded ff] by (intro exI[of _ ind] conjI)
  with h fv fvt ff l3 show ?thesis by (intro conjI)
qed

end
